theory Spec2Isabelle
  imports Main "HOL-Library.AList"
begin

section \<open>Objects handed over by the taxonomy engine\<close>

text \<open>
  The parsers read three things from an engine object: its \<open>qname\<close> attribute, its
  \<open>isAbstract\<close> flag and, for formula objects, \<open>xlinkLabel\<close> and \<open>localName\<close>.
  A qualified name is used through \<open>qname.localName\<close> (dimension parser) and through
  \<open>str(qname)\<close> (taxonomy parser); both readings are fields of the record.

  Python separates an attribute that does not exist (\<open>hasattr\<close> is false) from an
  attribute that exists and holds \<open>None\<close>; the two parsers test these differently, so
  the attribute has three states.
\<close>

record QName =
  localName :: string
  qname_str :: string

datatype qname_attr = NoAttr | AttrNone | AttrQName QName

record model_object =
  qname :: qname_attr
  isAbstract :: bool

record relationship =
  fromModelObject :: "model_object option"
  toModelObject :: "model_object option"

record relationship_set =
  modelRelationships :: "relationship list"
  linkRoleUris :: "string list"

datatype error = AttributeError

section \<open>dimension\_parser.py\<close>

subsection \<open>Names\<close>

text \<open>\<open>s.split(sep)\<close> for a one-character separator: never the empty list.\<close>

fun split_str :: "char \<Rightarrow> string \<Rightarrow> string list" where
  "split_str sep [] = [[]]"
| "split_str sep (c # cs) =
     (if c = sep then [] # split_str sep cs
      else (case split_str sep cs of
              w # ws \<Rightarrow> (c # w) # ws
            | [] \<Rightarrow> [[c]]))"

text \<open>\<open>role_prefix = f"[{elr.split('/')[-1]}] "\<close>\<close>

definition role_prefix :: "string \<Rightarrow> string" where
  "role_prefix elr = ''['' @ last (split_str CHR ''/'' elr) @ ''] ''"

subsection \<open>The parent-child map\<close>

text \<open>
  \<open>parent_child_map\<close> is a \<open>defaultdict\<close>: an insertion-ordered dictionary from a
  name to \<open>{"abstract", "children", "parent"}\<close>. The \<open>children\<close> ordered dictionary
  is read through its keys only, so it is kept as the list of its keys in insertion
  order.
\<close>

record pc_entry =
  abstract :: bool
  children :: "string list"
  parent :: "string option"

type_synonym parent_child_map = "(string \<times> pc_entry) list"

definition default_entry :: pc_entry where
  "default_entry = \<lparr>abstract = False, children = [], parent = None\<rparr>"

text \<open>The four statements executed for one accepted relationship (lines 35 to 46).\<close>

definition record_edge ::
    "string \<Rightarrow> bool \<Rightarrow> string \<Rightarrow> bool \<Rightarrow> parent_child_map \<Rightarrow> parent_child_map" where
  "record_edge parent_name parent_abs child_name child_abs m =
     (let m1 = (if parent_name \<in> fst ` set m then m
                else m @ [(parent_name, default_entry\<lparr>abstract := parent_abs\<rparr>)]);
          m2 = (if child_name \<in> fst ` set m1 then m1
                else m1 @ [(child_name,
                            \<lparr>abstract = child_abs, children = [], parent = None\<rparr>)]);
          m3 = AList.map_entry child_name (\<lambda>e. e\<lparr>parent := Some parent_name\<rparr>) m2
      in AList.map_entry parent_name
           (\<lambda>e. e\<lparr>children := (if child_name \<in> set (children e) then children e
                                 else children e @ [child_name])\<rparr>) m3)"

text \<open>
  One iteration of the loop over \<open>modelRelationships\<close>. The guard of line 24 skips a
  record with a missing endpoint or an endpoint without the \<open>qname\<close> attribute;
  \<open>parent.qname.localName\<close> on an attribute holding \<open>None\<close> raises.
\<close>

definition add_relationship ::
    "string \<Rightarrow> relationship \<Rightarrow> parent_child_map \<Rightarrow> error + parent_child_map" where
  "add_relationship elr rel m =
     (case fromModelObject rel of
        None \<Rightarrow> Inr m
      | Some p \<Rightarrow>
          (case toModelObject rel of
             None \<Rightarrow> Inr m
           | Some c \<Rightarrow>
               if qname p = NoAttr \<or> qname c = NoAttr then Inr m
               else
                 (case qname p of
                    AttrQName pq \<Rightarrow>
                      (case qname c of
                         AttrQName cq \<Rightarrow>
                           Inr (record_edge (role_prefix elr @ localName pq) (isAbstract p)
                                  (localName cq) (isAbstract c) m)
                       | _ \<Rightarrow> Inl AttributeError)
                  | _ \<Rightarrow> Inl AttributeError)))"

fun collect_edges ::
    "string \<Rightarrow> relationship list \<Rightarrow> parent_child_map \<Rightarrow> error + parent_child_map" where
  "collect_edges elr [] m = Inr m"
| "collect_edges elr (rel # rels) m =
     (case add_relationship elr rel m of
        Inl e \<Rightarrow> Inl e
      | Inr m' \<Rightarrow> collect_edges elr rels m')"

subsection \<open>Tree materialisation\<close>

datatype node = Node (name: string) (node_abstract: bool) (node_children: "node list")

text \<open>\<open>parent_child_map.get(node_name, {"abstract": False, "children": {}})\<close>\<close>

definition get_entry :: "parent_child_map \<Rightarrow> string \<Rightarrow> pc_entry" where
  "get_entry m k = (case map_of m k of Some e \<Rightarrow> e | None \<Rightarrow> default_entry)"

text \<open>
  \<open>build_hierarchy\<close> shares one mutable \<open>visited\<close> set among all its calls: a name
  is added on entry and removed on exit. The set is threaded through the calls, and
  \<open>build_children\<close> is the \<open>for\<close> loop over the children of one node.
\<close>

function build_hierarchy ::
    "parent_child_map \<Rightarrow> string \<Rightarrow> string set \<Rightarrow> nat \<Rightarrow> node option \<times> string set"
  and build_children ::
    "parent_child_map \<Rightarrow> string list \<Rightarrow> string set \<Rightarrow> nat \<Rightarrow> node list \<times> string set"
where
  "build_hierarchy m node_name visited depth =
     (if node_name \<in> visited then (None, visited)
      else
        (case build_children m (children (get_entry m node_name))
                (insert node_name visited) depth of
           (cs, visited') \<Rightarrow>
             (Some (Node node_name (abstract (get_entry m node_name)) cs),
              visited' - {node_name})))"
| "build_children m [] visited depth = ([], visited)"
| "build_children m (child_name # rest) visited depth =
     (if child_name \<in> fst ` set m then
        (case build_hierarchy m child_name visited (depth + 1) of
           (child_hierarchy, visited') \<Rightarrow>
             (case build_children m rest visited' depth of
                (cs, visited'') \<Rightarrow>
                  ((case child_hierarchy of
                      Some n \<Rightarrow> n # cs
                    | None \<Rightarrow> cs), visited'')))
      else build_children m rest visited depth)"
  by pat_completeness auto

text \<open>
  Termination. Wherever the recursion is defined, a call hands the \<open>visited\<close> set
  back as it received it; so the loop over the children continues with the set it started
  with, and every descent adds a key of the map to it.
\<close>

termination
proof -
  have restored:
    "build_hierarchy_build_children_dom (Inl (m, n, v, d)) \<Longrightarrow>
       snd (build_hierarchy m n v d) = v"
    "build_hierarchy_build_children_dom (Inr (m, cs, v, d)) \<Longrightarrow>
       snd (build_children m cs v d) = v"
    for m n v d cs
  proof (induct m n v d and m cs v d rule: build_hierarchy_build_children.pinduct)
    case (1 m node_name visited depth)
    show ?case
    proof (cases "node_name \<in> visited")
      case True
      then show ?thesis using 1(1) by (simp add: build_hierarchy.psimps)
    next
      case False
      obtain cs v' where r:
        "build_children m (children (get_entry m node_name)) (insert node_name visited) depth
           = (cs, v')"
        by (cases "build_children m (children (get_entry m node_name))
                     (insert node_name visited) depth")
      with 1(2)[OF False] have "v' = insert node_name visited" by simp
      with r False 1(1) show ?thesis by (simp add: build_hierarchy.psimps)
    qed
  next
    case (2 m visited depth)
    then show ?case by (simp add: build_children.psimps)
  next
    case (3 m child_name rest visited depth)
    show ?case
    proof (cases "child_name \<in> fst ` set m")
      case True
      obtain r v1 where a: "build_hierarchy m child_name visited (depth + 1) = (r, v1)"
        by (cases "build_hierarchy m child_name visited (depth + 1)")
      obtain cs v2 where b: "build_children m rest v1 depth = (cs, v2)"
        by (cases "build_children m rest v1 depth")
      from 3(2)[OF True] a have v1: "v1 = visited" by simp
      from 3(3)[OF True a[symmetric]] b have "v2 = v1" by simp
      with v1 a b True 3(1) show ?thesis by (simp add: build_children.psimps)
    next
      case False
      with 3(4)[OF False] 3(1) show ?thesis by (simp add: build_children.psimps)
    qed
  qed
  show ?thesis
  proof (relation "measures
      [\<lambda>x. case x of Inl (m, n, v, d) \<Rightarrow> card (fst ` set m - v)
                       | Inr (m, cs, v, d) \<Rightarrow> card (fst ` set m - v),
       \<lambda>x. case x of Inl (m, n, v, d) \<Rightarrow> (if n \<in> fst ` set m then 0 else 2)
                       | Inr (m, cs, v, d) \<Rightarrow> 1,
       \<lambda>x. case x of Inl (m, n, v, d) \<Rightarrow> 0
                       | Inr (m, cs, v, d) \<Rightarrow> length cs]", goal_cases)
    case 1
    then show ?case by simp
  next
    case (2 m node_name visited depth)
    show ?case
    proof (cases "node_name \<in> fst ` set m")
      case True
      have "card (fst ` set m - insert node_name visited) < card (fst ` set m - visited)"
        using True 2 by (intro psubset_card_mono) auto
      then show ?thesis by simp
    next
      case False
      then have "fst ` set m - insert node_name visited = fst ` set m - visited" by auto
      then show ?thesis using False by simp
    qed
  next
    case (3 m child_name rest visited depth)
    then show ?case by simp
  next
    case (4 m child_name rest visited depth x y)
    then have "y = visited"
      using restored(1)[of m child_name visited "depth + 1"]
      by (metis Suc_eq_plus1 snd_conv)
    then show ?case by simp
  next
    case (5 m child_name rest visited depth)
    then show ?case by simp
  qed
qed

subsection \<open>Root resolution and the per-scope hierarchy\<close>

text \<open>
  \<open>all_parents\<close> and \<open>all_children\<close> are Python sets. \<open>root_nodes\<close> is the set
  difference with the fallback of line 89. The \<open>for root in root_nodes\<close> loop walks
  a set; the order in which Python meets the elements of a set comes from the hashes of the
  names and is not fixed by the language. An iteration order is therefore any function that
  permutes a list: it keeps the elements and the length. \<open>iterate ord xs\<close> is the order
  in which the elements \<open>xs\<close> of a set are met, and \<open>process_relationships\<close> takes the
  iteration order as its first argument. Every statement about it below is for every
  iteration order.
\<close>

typedef set_iteration =
  "{f :: string list \<Rightarrow> string list. \<forall>xs. set (f xs) = set xs \<and> length (f xs) = length xs}"
  morphisms iterate Abs_set_iteration
  by (rule exI[of _ "\<lambda>xs. xs"]) simp

definition all_parents :: "parent_child_map \<Rightarrow> string set" where
  "all_parents m = fst ` set m"

definition all_children :: "parent_child_map \<Rightarrow> string set" where
  "all_children m = (\<Union>e \<in> snd ` set m. set (children e))"

definition root_nodes :: "parent_child_map \<Rightarrow> string set" where
  "root_nodes m =
     (if all_parents m - all_children m = {} then all_parents m
      else all_parents m - all_children m)"

definition root_order :: "set_iteration \<Rightarrow> parent_child_map \<Rightarrow> string list" where
  "root_order ord m = iterate ord (filter (\<lambda>k. k \<in> root_nodes m) (remdups (map fst m)))"

type_synonym hierarchy = "(string \<times> node option) list"

definition build_roots :: "set_iteration \<Rightarrow> parent_child_map \<Rightarrow> hierarchy" where
  "build_roots ord m =
     map (\<lambda>root. (root, fst (build_hierarchy m root {} 0))) (root_order ord m)"

definition process_relationships ::
    "set_iteration \<Rightarrow> string \<Rightarrow> relationship_set option \<Rightarrow> string \<Rightarrow> error + hierarchy" where
  "process_relationships ord arcrole rs elr =
     (case (case rs of
              None \<Rightarrow> Inr []
            | Some s \<Rightarrow>
                if modelRelationships s = [] then Inr []
                else collect_edges elr (modelRelationships s) [])
      of Inl e \<Rightarrow> Inl e
       | Inr m \<Rightarrow> Inr (build_roots ord m))"

subsection \<open>Merging the scopes: \<open>parse_dimensions\<close>\<close>

text \<open>
  \<open>model_xbrl.relationshipSet(arcrole)\<close> and \<open>model_xbrl.relationshipSet(arcrole, elr)\<close>
  belong to the taxonomy engine; the model takes the lookup as a function. The set
  \<open>linkRoleUris\<close> is a list here, in the order the \<open>for\<close> loop meets its elements.
\<close>

type_synonym model_xbrl = "string \<Rightarrow> string option \<Rightarrow> relationship_set option"

definition dim_arcroles :: "string list" where
  "dim_arcroles =
     [''http://xbrl.org/int/dim/arcrole/hypercube-dimension'',
      ''http://xbrl.org/int/dim/arcrole/dimension-domain'',
      ''http://xbrl.org/int/dim/arcrole/domain-member'']"

text \<open>\<open>dimensions.update(arcrole_hierarchy)\<close>: a key already there keeps its place and
  takes the new value, a new key goes to the end.\<close>

fun dict_update :: "('k \<times> 'v) list \<Rightarrow> ('k \<times> 'v) list \<Rightarrow> ('k \<times> 'v) list" where
  "dict_update d [] = d"
| "dict_update d ((k, v) # kvs) = dict_update (AList.update k v d) kvs"

fun elr_loop ::
    "set_iteration \<Rightarrow> model_xbrl \<Rightarrow> string \<Rightarrow> string list \<Rightarrow> hierarchy \<Rightarrow> error + hierarchy" where
  "elr_loop ord model_xbrl arcrole [] dimensions = Inr dimensions"
| "elr_loop ord model_xbrl arcrole (elr # elrs) dimensions =
     (case process_relationships ord arcrole (model_xbrl arcrole (Some elr)) elr of
        Inl e \<Rightarrow> Inl e
      | Inr arcrole_hierarchy \<Rightarrow>
          elr_loop ord model_xbrl arcrole elrs (dict_update dimensions arcrole_hierarchy))"

fun arcrole_loop ::
    "set_iteration \<Rightarrow> model_xbrl \<Rightarrow> string list \<Rightarrow> hierarchy \<Rightarrow> error + hierarchy" where
  "arcrole_loop ord model_xbrl [] dimensions = Inr dimensions"
| "arcrole_loop ord model_xbrl (arcrole # arcroles) dimensions =
     (case model_xbrl arcrole None of
        None \<Rightarrow> arcrole_loop ord model_xbrl arcroles dimensions
      | Some relationship_set \<Rightarrow>
          if modelRelationships relationship_set = []
          then arcrole_loop ord model_xbrl arcroles dimensions
          else
            (case elr_loop ord model_xbrl arcrole (linkRoleUris relationship_set) dimensions of
               Inl e \<Rightarrow> Inl e
             | Inr dimensions' \<Rightarrow> arcrole_loop ord model_xbrl arcroles dimensions'))"

definition parse_dimensions :: "set_iteration \<Rightarrow> model_xbrl \<Rightarrow> error + hierarchy" where
  "parse_dimensions ord model_xbrl = arcrole_loop ord model_xbrl dim_arcroles []"

section \<open>taxonomy\_parser.py\<close>

subsection \<open>\<open>process_relationships\<close>\<close>

text \<open>
  The hierarchy of this parser is flat: a dictionary from \<open>str(parent.qname)\<close> to
  \<open>{"abstract", "children"}\<close>, the children being \<open>{"name", "abstract"}\<close> entries.
  \<open>skipped_relationships\<close> is local to the function, which prints its length; the loop
  state of the model carries it. Line 27 tests the truth value of
  \<open>getattr(parent, 'qname', None)\<close>: a missing attribute and \<open>None\<close> are false, and the
  engine's \<open>QName\<close> is true exactly when its local name is not empty.
\<close>

record child_entry =
  child_name :: string
  child_abstract :: bool

record flat_entry =
  flat_abstract :: bool
  flat_children :: "child_entry list"

type_synonym flat_hierarchy = "(string \<times> flat_entry) list"

type_synonym skipped = "model_object option \<times> model_object option \<times> string"

definition add_child :: "string \<Rightarrow> bool \<Rightarrow> string \<Rightarrow> bool \<Rightarrow> flat_hierarchy \<Rightarrow> flat_hierarchy" where
  "add_child parent_name parent_abs cname cabs h =
     (let h1 = (if parent_name \<in> fst ` set h then h
                else h @ [(parent_name, \<lparr>flat_abstract = parent_abs, flat_children = []\<rparr>)])
      in AList.map_entry parent_name
           (\<lambda>e. if cname \<in> child_name ` set (flat_children e) then e
                else e\<lparr>flat_children :=
                         flat_children e @ [\<lparr>child_name = cname, child_abstract = cabs\<rparr>]\<rparr>)
           h1)"

definition flat_step ::
    "relationship \<Rightarrow> flat_hierarchy \<times> skipped list \<Rightarrow> flat_hierarchy \<times> skipped list" where
  "flat_step rel st =
     (case st of (h, skipped_relationships) \<Rightarrow>
        (case fromModelObject rel of
           None \<Rightarrow>
             (h, skipped_relationships
                   @ [(None, toModelObject rel, ''Parent or child is None'')])
         | Some p \<Rightarrow>
             (case toModelObject rel of
                None \<Rightarrow>
                  (h, skipped_relationships @ [(Some p, None, ''Parent or child is None'')])
              | Some c \<Rightarrow>
                  (case qname p of
                     AttrQName pq \<Rightarrow>
                       (case qname c of
                          AttrQName cq \<Rightarrow>
                            if localName pq = [] \<or> localName cq = []
                            then (h, skipped_relationships
                                       @ [(Some p, Some c, ''Missing QName'')])
                            else (add_child (qname_str pq) (isAbstract p)
                                    (qname_str cq) (isAbstract c) h,
                                  skipped_relationships)
                        | _ \<Rightarrow>
                            (h, skipped_relationships
                                  @ [(Some p, Some c, ''Missing QName'')]))
                   | _ \<Rightarrow>
                       (h, skipped_relationships @ [(Some p, Some c, ''Missing QName'')])))))"

definition flat_loop :: "relationship_set option \<Rightarrow> flat_hierarchy \<times> skipped list" where
  "flat_loop rs =
     (case rs of
        None \<Rightarrow> ([], [])
      | Some s \<Rightarrow> fold flat_step (modelRelationships s) ([], []))"

definition process_relationships_flat :: "string \<Rightarrow> relationship_set option \<Rightarrow> flat_hierarchy" where
  "process_relationships_flat arcrole rs = fst (flat_loop rs)"

subsection \<open>The dimension part of \<open>parse_taxonomy\<close>\<close>

text \<open>Lines 171 to 175, for the hierarchy of one arc-role.\<close>

fun merge_scope :: "flat_hierarchy \<Rightarrow> flat_hierarchy \<Rightarrow> flat_hierarchy" where
  "merge_scope unified_dimensions [] = unified_dimensions"
| "merge_scope unified_dimensions ((parent_name, details) # items) =
     merge_scope
       (if parent_name \<notin> fst ` set unified_dimensions
        then unified_dimensions @ [(parent_name, details)]
        else AList.map_entry parent_name
               (\<lambda>e. e\<lparr>flat_children := flat_children e @ flat_children details\<rparr>)
               unified_dimensions)
       items"

fun unify_dimensions :: "model_xbrl \<Rightarrow> string list \<Rightarrow> flat_hierarchy \<Rightarrow> flat_hierarchy" where
  "unify_dimensions model_xbrl [] unified_dimensions = unified_dimensions"
| "unify_dimensions model_xbrl (arcrole # arcroles) unified_dimensions =
     (case model_xbrl arcrole None of
        None \<Rightarrow> unify_dimensions model_xbrl arcroles unified_dimensions
      | Some relationship_set \<Rightarrow>
          unify_dimensions model_xbrl arcroles
            (merge_scope unified_dimensions
               (process_relationships_flat arcrole (Some relationship_set))))"

definition parse_taxonomy_dimensions :: "model_xbrl \<Rightarrow> flat_hierarchy" where
  "parse_taxonomy_dimensions model_xbrl = unify_dimensions model_xbrl dim_arcroles []"

subsection \<open>\<open>process_formula_object\<close>\<close>

text \<open>
  A formula object is read through \<open>xlinkLabel\<close> and \<open>localName\<close>; \<open>oid\<close> stands for
  the identity of the Python object, which is what membership in \<open>visited\<close> compares.
  \<open>relationship_set.fromModelObject(obj)\<close> is given as the list of the
  \<open>toModelObject\<close> ends of the outgoing relationships. The output dictionary and the
  \<open>visited\<close> set are mutated in place by the source and threaded through here;
  \<open>process_formula_children\<close> is the \<open>for\<close> loop of lines 99 to 105.
\<close>

record formula_object =
  oid :: nat
  xlinkLabel :: "string option"
  obj_localName :: string

datatype formula_node =
  FormulaNode (node_type: string) (node_label: "string option")
    (formula_children: "(string \<times> formula_node) list list")

type_synonym formula_hierarchy = "(string \<times> formula_node) list"

type_synonym formula_relationship_set = "formula_object \<Rightarrow> formula_object option list"

definition obj_name_of :: "formula_object \<Rightarrow> string" where
  "obj_name_of obj =
     (case xlinkLabel obj of
        None \<Rightarrow> obj_localName obj
      | Some l \<Rightarrow> if l = [] then obj_localName obj else l)"

definition append_child :: "string \<Rightarrow> formula_hierarchy \<Rightarrow> formula_hierarchy \<Rightarrow> formula_hierarchy" where
  "append_child obj_name child_hierarchy h =
     AList.map_entry obj_name
       (\<lambda>n. FormulaNode (node_type n) (node_label n) (formula_children n @ [child_hierarchy])) h"

function process_formula_object ::
    "formula_object \<Rightarrow> formula_relationship_set option \<Rightarrow> formula_hierarchy \<Rightarrow>
     formula_object set \<Rightarrow> nat \<Rightarrow> nat \<Rightarrow> formula_hierarchy \<times> formula_object set"
  and process_formula_children ::
    "formula_object option list \<Rightarrow> formula_relationship_set option \<Rightarrow> string \<Rightarrow>
     formula_hierarchy \<Rightarrow> formula_object set \<Rightarrow> nat \<Rightarrow> nat \<Rightarrow>
     formula_hierarchy \<times> formula_object set"
where
  "process_formula_object obj rs h visited depth max_depth =
     (if depth > max_depth then (h, visited)
      else if obj \<in> visited then (h, visited)
      else
        (let h1 = (if obj_name_of obj \<in> fst ` set h then h
                   else h @ [(obj_name_of obj,
                              FormulaNode (obj_localName obj) (xlinkLabel obj) [])])
         in case rs of
              None \<Rightarrow> (h1, insert obj visited - {obj})
            | Some from_object \<Rightarrow>
                (case process_formula_children (from_object obj) rs (obj_name_of obj) h1
                        (insert obj visited) depth max_depth of
                   (h2, visited') \<Rightarrow> (h2, visited' - {obj}))))"
| "process_formula_children [] rs obj_name h visited depth max_depth = (h, visited)"
| "process_formula_children (to_object # rest) rs obj_name h visited depth max_depth =
     (case to_object of
        None \<Rightarrow> process_formula_children rest rs obj_name h visited depth max_depth
      | Some child \<Rightarrow>
          (case process_formula_object child rs [] visited (depth + 1) max_depth of
             (child_hierarchy, visited') \<Rightarrow>
               process_formula_children rest rs obj_name
                 (append_child obj_name child_hierarchy h) visited' depth max_depth))"
  by pat_completeness auto
termination
  by (relation "measures
      [\<lambda>x. case x of
              Inl (obj, rs, h, v, d, mx) \<Rightarrow> (if d > mx then 0 else 2 * (mx + 1 - d) + 3)
            | Inr (cs, rs, nm, h, v, d, mx) \<Rightarrow> 2 * (mx + 1 - d) + 2,
       \<lambda>x. case x of
              Inl (obj, rs, h, v, d, mx) \<Rightarrow> 0
            | Inr (cs, rs, nm, h, v, d, mx) \<Rightarrow> length cs]")
    (auto split: if_splits)

section \<open>Notions used in the statements\<close>

text \<open>
  The names of a tree in preorder, the parent-child pairs of a tree, its depth, and what it
  means for a tree to be free of cycles: no node's name occurs below that node.
\<close>

fun subtree_names :: "node \<Rightarrow> string list" where
  "subtree_names (Node n a cs) = n # concat (map subtree_names cs)"

fun acyclic_node :: "node \<Rightarrow> bool" where
  "acyclic_node (Node n a cs) =
     (n \<notin> set (concat (map subtree_names cs)) \<and> (\<forall>c \<in> set cs. acyclic_node c))"

fun tree_edges :: "node \<Rightarrow> (string \<times> string) list" where
  "tree_edges (Node n a cs) = map (\<lambda>c. (n, name c)) cs @ concat (map tree_edges cs)"

fun node_depth :: "node \<Rightarrow> nat" where
  "node_depth (Node n a cs) = Suc (foldr max (map node_depth cs) 0)"

text \<open>
  A relationship record is accepted when both ends are present and both carry a
  qualified name; \<open>scope_edges\<close> is the set of (parent name, child name) pairs that the
  accepted records of a scope stand for under the naming rule of lines 28 to 30.
\<close>

definition endpoints :: "relationship \<Rightarrow> (QName \<times> QName) option" where
  "endpoints rel =
     (case fromModelObject rel of
        None \<Rightarrow> None
      | Some p \<Rightarrow>
          (case toModelObject rel of
             None \<Rightarrow> None
           | Some c \<Rightarrow>
               (case qname p of
                  AttrQName pq \<Rightarrow>
                    (case qname c of AttrQName cq \<Rightarrow> Some (pq, cq) | _ \<Rightarrow> None)
                | _ \<Rightarrow> None)))"

definition scope_edges :: "string \<Rightarrow> relationship list \<Rightarrow> (string \<times> string) set" where
  "scope_edges elr rels =
     {(''['' @ last (split_str CHR ''/'' elr) @ ''] '' @ localName pq, localName cq) | pq cq.
        \<exists>rel \<in> set rels. endpoints rel = Some (pq, cq)}"

definition scope_relationships :: "relationship_set option \<Rightarrow> relationship list" where
  "scope_relationships rs = (case rs of None \<Rightarrow> [] | Some s \<Rightarrow> modelRelationships s)"

text \<open>
  The two ways in which the dimension parser leaves a record out of the map: the guard of
  line 24 passes over it, or line 29 or 30 raises. The taxonomy parser takes a record when
  both ends are present with a qualified name that counts as true (\<open>named_endpoints\<close>);
  \<open>skip_entry\<close> is the entry it appends to \<open>skipped_relationships\<close> for a record it
  leaves out.
\<close>

definition named_endpoints :: "relationship \<Rightarrow> bool" where
  "named_endpoints rel =
     (case endpoints rel of
        None \<Rightarrow> False
      | Some (pq, cq) \<Rightarrow> localName pq \<noteq> [] \<and> localName cq \<noteq> [])"

definition skipped_silently :: "relationship \<Rightarrow> bool" where
  "skipped_silently rel =
     (case fromModelObject rel of
        None \<Rightarrow> True
      | Some p \<Rightarrow>
          (case toModelObject rel of
             None \<Rightarrow> True
           | Some c \<Rightarrow> qname p = NoAttr \<or> qname c = NoAttr))"

definition raises :: "relationship \<Rightarrow> bool" where
  "raises rel = (\<not> skipped_silently rel \<and> endpoints rel = None)"

definition skip_entry :: "relationship \<Rightarrow> skipped" where
  "skip_entry rel =
     (fromModelObject rel, toModelObject rel,
      if fromModelObject rel = None \<or> toModelObject rel = None
      then ''Parent or child is None'' else ''Missing QName'')"

text \<open>The number of nested levels of a formula hierarchy.\<close>

fun node_levels :: "formula_node \<Rightarrow> nat" where
  "node_levels (FormulaNode t l chs) =
     Suc (foldr max (map (\<lambda>h. foldr max (map (\<lambda>kn. node_levels (snd kn)) h) 0) chs) 0)"

definition hierarchy_levels :: "formula_hierarchy \<Rightarrow> nat" where
  "hierarchy_levels h = foldr max (map (\<lambda>kn. node_levels (snd kn)) h) 0"

section \<open>Example inputs and the outputs expected for them\<close>

definition concept :: "string \<Rightarrow> model_object" where
  "concept n = \<lparr>qname = AttrQName \<lparr>localName = n, qname_str = ''t:'' @ n\<rparr>, isAbstract = False\<rparr>"

definition arc :: "string \<Rightarrow> string \<Rightarrow> relationship" where
  "arc a b = \<lparr>fromModelObject = Some (concept a), toModelObject = Some (concept b)\<rparr>"

definition scope :: "relationship list \<Rightarrow> relationship_set option" where
  "scope rels = Some \<lparr>modelRelationships = rels, linkRoleUris = []\<rparr>"

definition balance_role :: string where
  "balance_role = ''http://example.com/role/Balance''"

text \<open>Two iteration orders: the order of insertion, and its reverse.\<close>

definition insertion_order :: set_iteration where
  "insertion_order = Abs_set_iteration (\<lambda>xs. xs)"

definition reversed_order :: set_iteration where
  "reversed_order = Abs_set_iteration rev"

definition ring_map :: parent_child_map where
  "ring_map =
     [(''[Balance] A'',
       \<lparr>abstract = False, children = [''[Balance] B''], parent = Some ''[Balance] B''\<rparr>),
      (''[Balance] B'',
       \<lparr>abstract = False, children = [''[Balance] A''], parent = Some ''[Balance] A''\<rparr>)]"

definition revenue_map :: parent_child_map where
  "revenue_map =
     [(''[Balance] Revenue'', \<lparr>abstract = False, children = [''Cash''], parent = None\<rparr>),
      (''Cash'', \<lparr>abstract = False, children = [], parent = Some ''[Balance] Revenue''\<rparr>),
      (''[Balance] Assets'', \<lparr>abstract = False, children = [''Revenue''], parent = None\<rparr>),
      (''Revenue'', \<lparr>abstract = False, children = [], parent = Some ''[Balance] Assets''\<rparr>)]"

definition ring_scope_map :: "string \<Rightarrow> parent_child_map" where
  "ring_scope_map elr =
     [(role_prefix elr @ ''A'', \<lparr>abstract = False, children = [''B''], parent = None\<rparr>),
      (''B'', \<lparr>abstract = False, children = [], parent = Some (role_prefix elr @ ''A'')\<rparr>),
      (role_prefix elr @ ''B'', \<lparr>abstract = False, children = [''C''], parent = None\<rparr>),
      (''C'', \<lparr>abstract = False, children = [], parent = Some (role_prefix elr @ ''B'')\<rparr>),
      (role_prefix elr @ ''C'', \<lparr>abstract = False, children = [''A''], parent = None\<rparr>),
      (''A'', \<lparr>abstract = False, children = [], parent = Some (role_prefix elr @ ''C'')\<rparr>)]"

definition chain_scope_map :: "string \<Rightarrow> parent_child_map" where
  "chain_scope_map elr =
     [(role_prefix elr @ ''A'', \<lparr>abstract = False, children = [''B''], parent = None\<rparr>),
      (''B'', \<lparr>abstract = False, children = [], parent = Some (role_prefix elr @ ''A'')\<rparr>),
      (role_prefix elr @ ''B'', \<lparr>abstract = False, children = [''C''], parent = None\<rparr>),
      (''C'', \<lparr>abstract = False, children = [], parent = Some (role_prefix elr @ ''B'')\<rparr>)]"


definition clash_model :: "string \<Rightarrow> string \<Rightarrow> model_xbrl" where
  "clash_model c1 c2 arcrole elr =
     (if arcrole = ''http://xbrl.org/int/dim/arcrole/hypercube-dimension''
      then Some \<lparr>modelRelationships = [arc ''P'' c1], linkRoleUris = [balance_role]\<rparr>
      else if arcrole = ''http://xbrl.org/int/dim/arcrole/dimension-domain''
      then Some \<lparr>modelRelationships = [arc ''P'' c2], linkRoleUris = [balance_role]\<rparr>
      else None)"

definition nameless :: model_object where
  "nameless = \<lparr>qname = AttrNone, isAbstract = False\<rparr>"

definition unnamed_parent :: relationship where
  "unnamed_parent = \<lparr>fromModelObject = Some nameless, toModelObject = Some (concept ''B'')\<rparr>"

text \<open>
  A chain of formula objects \<open>0 \<rightarrow> 1 \<rightarrow> \<dots>\<close>: object \<open>i\<close> is labelled with \<open>i + 1\<close>
  letters, and \<open>truncated_chain n k i\<close> is the nest of \<open>k\<close> levels that starts at
  object \<open>i\<close> of a chain of \<open>n\<close> objects.
\<close>

definition chain_obj :: "nat \<Rightarrow> formula_object" where
  "chain_obj i =
     \<lparr>oid = i, xlinkLabel = Some (replicate (Suc i) CHR ''v''), obj_localName = ''variable''\<rparr>"

definition chain_rels :: "nat \<Rightarrow> formula_relationship_set" where
  "chain_rels n obj = (if Suc (oid obj) < n then [Some (chain_obj (Suc (oid obj)))] else [])"

fun truncated_chain :: "nat \<Rightarrow> nat \<Rightarrow> nat \<Rightarrow> formula_hierarchy" where
  "truncated_chain n 0 i = []"
| "truncated_chain n (Suc k) i =
     [(replicate (Suc i) CHR ''v'',
       FormulaNode ''variable'' (Some (replicate (Suc i) CHR ''v''))
         (if Suc i < n then [truncated_chain n k (Suc i)] else []))]"

section \<open>Facts about the dimension parser\<close>

subsection \<open>The \<open>visited\<close> set is handed back unchanged\<close>

lemma visited_restored:
  "snd (build_hierarchy m n v d) = v"
  "snd (build_children m cs v d) = v"
proof (induct m n v d and m cs v d rule: build_hierarchy_build_children.induct)
  case (1 m node_name visited depth)
  show ?case
  proof (cases "node_name \<in> visited")
    case True
    then show ?thesis by simp
  next
    case False
    obtain cs v' where r:
      "build_children m (children (get_entry m node_name)) (insert node_name visited) depth
         = (cs, v')"
      by (cases "build_children m (children (get_entry m node_name))
                   (insert node_name visited) depth")
    with 1[OF False] have "v' = insert node_name visited" by simp
    with r False show ?thesis by simp
  qed
next
  case (2 m visited depth)
  then show ?case by simp
next
  case (3 m child_name rest visited depth)
  show ?case
  proof (cases "child_name \<in> fst ` set m")
    case True
    obtain r v1 where a: "build_hierarchy m child_name visited (depth + 1) = (r, v1)"
      by (cases "build_hierarchy m child_name visited (depth + 1)")
    obtain cs v2 where b: "build_children m rest v1 depth = (cs, v2)"
      by (cases "build_children m rest v1 depth")
    from 3(1)[OF True] a have v1: "v1 = visited" by simp
    from 3(2)[OF True a[symmetric]] b have "v2 = v1" by simp
    with v1 a b True show ?thesis by simp
  next
    case False
    with 3(3)[OF False] show ?thesis by simp
  qed
qed

lemma build_hierarchy_eq:
  "build_hierarchy m n v d =
     (if n \<in> v then (None, v)
      else (Some (Node n (abstract (get_entry m n))
                    (fst (build_children m (children (get_entry m n)) (insert n v) d))), v))"
proof (cases "n \<in> v")
  case True
  then show ?thesis by simp
next
  case False
  obtain cs v' where r:
    "build_children m (children (get_entry m n)) (insert n v) d = (cs, v')"
    by (cases "build_children m (children (get_entry m n)) (insert n v) d")
  with visited_restored(2)[of m "children (get_entry m n)" "insert n v" d]
  have "v' = insert n v" by simp
  with r False show ?thesis by simp
qed

lemma build_children_Nil: "build_children m [] v d = ([], v)"
  by simp

lemma build_children_Cons:
  "build_children m (c # rest) v d =
     (if c \<in> fst ` set m then
        (case fst (build_hierarchy m c v (d + 1)) of
           Some t \<Rightarrow> t # fst (build_children m rest v d)
         | None \<Rightarrow> fst (build_children m rest v d), v)
      else build_children m rest v d)"
proof (cases "c \<in> fst ` set m")
  case True
  obtain r v1 where a: "build_hierarchy m c v (d + 1) = (r, v1)"
    by (cases "build_hierarchy m c v (d + 1)")
  with visited_restored(1)[of m c v "d + 1"] have v1: "v1 = v" by simp
  obtain cs v2 where b: "build_children m rest v d = (cs, v2)"
    by (cases "build_children m rest v d")
  with visited_restored(2)[of m rest v d] have v2: "v2 = v" by simp
  from a b v1 v2 True show ?thesis by (simp split: option.splits)
next
  case False
  then show ?thesis by simp
qed

declare build_hierarchy.simps [simp del] build_children.simps [simp del]

lemma build_acyclic:
  "\<forall>t. fst (build_hierarchy m n v d) = Some t \<longrightarrow>
        name t = n \<and> set (subtree_names t) \<inter> v = {} \<and> acyclic_node t"
  "\<forall>t \<in> set (fst (build_children m cs v d)).
        set (subtree_names t) \<inter> v = {} \<and> acyclic_node t"
proof (induct m n v d and m cs v d rule: build_hierarchy_build_children.induct)
  case (1 m node_name visited depth)
  show ?case
  proof (cases "node_name \<in> visited")
    case True
    then show ?thesis by (simp add: build_hierarchy_eq)
  next
    case False
    from 1[OF False] False show ?thesis
      by (auto simp: build_hierarchy_eq)
  qed
next
  case (2 m visited depth)
  then show ?case by (simp add: build_children_Nil)
next
  case (3 m child_name rest visited depth)
  show ?case
  proof (cases "child_name \<in> fst ` set m")
    case True
    obtain r v1 where a: "build_hierarchy m child_name visited (depth + 1) = (r, v1)"
      by (cases "build_hierarchy m child_name visited (depth + 1)")
    with visited_restored(1)[of m child_name visited "depth + 1"] have v1: "v1 = visited"
      by simp
    from 3(2)[OF True a[symmetric]] v1
    have rest: "\<forall>t \<in> set (fst (build_children m rest visited depth)).
        set (subtree_names t) \<inter> visited = {} \<and> acyclic_node t" by simp
    from 3(1)[OF True] a
    have hd: "\<forall>t. r = Some t \<longrightarrow> set (subtree_names t) \<inter> visited = {} \<and> acyclic_node t"
      by simp
    from True a rest hd show ?thesis
      by (auto simp: build_children_Cons split: option.splits)
  next
    case False
    with 3(3)[OF False] show ?thesis by (simp add: build_children_Cons)
  qed
qed

lemma build_top_level:
  "\<exists>t. fst (build_hierarchy m r {} 0) = Some t \<and> name t = r \<and> acyclic_node t"
proof -
  have "fst (build_hierarchy m r {} 0) \<noteq> None"
    by (simp add: build_hierarchy_eq)
  then obtain t where t: "fst (build_hierarchy m r {} 0) = Some t" by blast
  with build_acyclic(1)[of m r "{}" 0] show ?thesis by simp
qed

subsection \<open>Iteration orders\<close>

lemma iterate_set [simp]: "set (iterate ord xs) = set xs"
  using iterate[of ord] by simp

lemma iterate_length [simp]: "length (iterate ord xs) = length xs"
  using iterate[of ord] by simp

lemma iterate_Nil [simp]: "iterate ord [] = []"
  by (rule length_0_conv[THEN iffD1]) simp

lemma iterate_single [simp]: "iterate ord [x] = [x]"
proof -
  have l: "length (iterate ord [x]) = 1" by simp
  then obtain y where y: "iterate ord [x] = [y]"
    by (cases "iterate ord [x]") auto
  with iterate_set[of ord "[x]"] show ?thesis by simp
qed

lemma iterate_distinct: "distinct xs \<Longrightarrow> distinct (iterate ord xs)"
proof -
  assume d: "distinct xs"
  have "card (set (iterate ord xs)) = length (iterate ord xs)"
    using d by (simp add: distinct_card)
  then show ?thesis by (rule card_distinct)
qed

lemma iterate_insertion_order [simp]: "iterate insertion_order xs = xs"
  by (simp add: insertion_order_def Abs_set_iteration_inverse)

lemma iterate_reversed_order [simp]: "iterate reversed_order xs = rev xs"
  by (simp add: reversed_order_def Abs_set_iteration_inverse)

lemma root_nodes_keys: "root_nodes m \<subseteq> fst ` set m"
  by (auto simp: root_nodes_def all_parents_def)

lemma set_root_order: "set (root_order ord m) = root_nodes m"
  using root_nodes_keys[of m] by (auto simp: root_order_def)

lemma distinct_root_order: "distinct (root_order ord m)"
  unfolding root_order_def by (rule iterate_distinct) simp

lemma length_root_order: "length (root_order ord m) = card (root_nodes m)"
  using distinct_card[OF distinct_root_order[of ord m]] by (simp add: set_root_order)

lemma set_build_roots:
  "set (build_roots ord m) = (\<lambda>root. (root, fst (build_hierarchy m root {} 0))) ` root_nodes m"
  by (simp add: build_roots_def set_root_order)

lemma length_build_roots: "length (build_roots ord m) = card (root_nodes m)"
  by (simp add: build_roots_def length_root_order)

lemma keys_build_roots: "map fst (build_roots ord m) = root_order ord m"
  by (simp add: build_roots_def comp_def)

subsection \<open>What one relationship does to the map\<close>

lemma in_keys_iff: "k \<in> fst ` set m \<longleftrightarrow> (\<exists>e. map_of m k = Some e)"
  using map_of_eq_None_iff[of m k] by auto

lemma get_entry_append_new:
  "k \<notin> fst ` set m \<Longrightarrow> get_entry (m @ [(k, e)]) k' = (if k' = k then e else get_entry m k')"
  by (auto simp: get_entry_def map_add_def in_keys_iff split: option.splits)

lemma get_entry_map_entry:
  "get_entry (AList.map_entry k f m) k' =
     (if k' = k \<and> k \<in> fst ` set m then f (get_entry m k) else get_entry m k')"
  by (auto simp: get_entry_def map_of_map_entry in_keys_iff split: option.splits)

lemma keys_record_edge:
  "fst ` set (record_edge pn pa cn ca m) = insert pn (insert cn (fst ` set m))"
  by (auto simp: record_edge_def Let_def dom_map_entry)

lemma children_record_edge:
  "children (get_entry (record_edge pn pa cn ca m) k) =
     (if k = pn then
        (if cn \<in> set (children (get_entry m pn)) then children (get_entry m pn)
         else children (get_entry m pn) @ [cn])
      else children (get_entry m k))"
proof -
  define m1 where "m1 = (if pn \<in> fst ` set m then m
                else m @ [(pn, default_entry\<lparr>abstract := pa\<rparr>)])"
  define m2 where "m2 = (if cn \<in> fst ` set m1 then m1
                else m1 @ [(cn, \<lparr>abstract = ca, children = [], parent = None\<rparr>)])"
  define m3 where "m3 = AList.map_entry cn (\<lambda>e. e\<lparr>parent := Some pn\<rparr>) m2"
  have r: "record_edge pn pa cn ca m = AList.map_entry pn
           (\<lambda>e. e\<lparr>children := (if cn \<in> set (children e) then children e
                                 else children e @ [cn])\<rparr>) m3"
    by (simp add: record_edge_def Let_def m1_def m2_def m3_def)
  have k1: "pn \<in> fst ` set m1" by (simp add: m1_def)
  have c1: "children (get_entry m1 k) = children (get_entry m k)" for k
    by (auto simp: m1_def get_entry_append_new)
       (simp add: get_entry_def default_entry_def in_keys_iff)
  have k2: "pn \<in> fst ` set m2" "cn \<in> fst ` set m2" using k1 by (auto simp: m2_def)
  have c2: "children (get_entry m2 k) = children (get_entry m1 k)" for k
    by (auto simp: m2_def get_entry_append_new)
       (simp add: get_entry_def default_entry_def in_keys_iff)
  have k3: "pn \<in> fst ` set m3" using k2 by (simp add: m3_def dom_map_entry)
  have c3: "children (get_entry m3 k) = children (get_entry m2 k)" for k
    by (simp add: m3_def get_entry_map_entry)
  show ?thesis
    unfolding r using k3 by (simp add: get_entry_map_entry c3 c2 c1)
qed

lemma add_relationship_cases:
  assumes "add_relationship elr rel m = Inr m'"
  shows "(endpoints rel = None \<and> m' = m) \<or>
         (\<exists>pq cq pa ca. endpoints rel = Some (pq, cq) \<and>
            m' = record_edge (role_prefix elr @ localName pq) pa (localName cq) ca m)"
  using assms
  by (auto simp: add_relationship_def endpoints_def
           split: option.splits if_splits qname_attr.splits)

lemma scope_edges_Nil: "scope_edges elr [] = {}"
  by (simp add: scope_edges_def)

lemma scope_edges_Cons:
  "scope_edges elr (rel # rels) =
     (case endpoints rel of
        None \<Rightarrow> {}
      | Some (pq, cq) \<Rightarrow> {(role_prefix elr @ localName pq, localName cq)})
     \<union> scope_edges elr rels"
  by (auto simp: scope_edges_def role_prefix_def split: option.splits)

lemma collect_edges_children:
  "collect_edges elr rels m = Inr m' \<Longrightarrow>
     set (children (get_entry m' k)) =
       set (children (get_entry m k)) \<union> {c. (k, c) \<in> scope_edges elr rels}"
proof (induction rels arbitrary: m)
  case Nil
  then show ?case by (simp add: scope_edges_Nil)
next
  case (Cons rel rels)
  from Cons.prems obtain m1 where
    a: "add_relationship elr rel m = Inr m1" and c: "collect_edges elr rels m1 = Inr m'"
    by (auto split: sum.splits)
  from add_relationship_cases[OF a]
  have "set (children (get_entry m1 k)) =
          set (children (get_entry m k)) \<union>
          {c. (k, c) \<in> (case endpoints rel of None \<Rightarrow> {}
                 | Some (pq, cq) \<Rightarrow> {(role_prefix elr @ localName pq, localName cq)})}"
    by (auto simp: children_record_edge split: if_splits)
  with Cons.IH[OF c] show ?case
    by (auto simp: scope_edges_Cons)
qed

lemma collect_edges_keys:
  "collect_edges elr rels m = Inr m' \<Longrightarrow>
     fst ` set m' = fst ` set m \<union> fst ` scope_edges elr rels \<union> snd ` scope_edges elr rels"
proof (induction rels arbitrary: m)
  case Nil
  then show ?case by (simp add: scope_edges_Nil)
next
  case (Cons rel rels)
  from Cons.prems obtain m1 where
    a: "add_relationship elr rel m = Inr m1" and c: "collect_edges elr rels m1 = Inr m'"
    by (auto split: sum.splits)
  from add_relationship_cases[OF a]
  have "fst ` set m1 = fst ` set m \<union>
          fst ` (case endpoints rel of None \<Rightarrow> {}
                 | Some (pq, cq) \<Rightarrow> {(role_prefix elr @ localName pq, localName cq)})
        \<union> snd ` (case endpoints rel of None \<Rightarrow> {}
                 | Some (pq, cq) \<Rightarrow> {(role_prefix elr @ localName pq, localName cq)})"
    by (elim disjE exE conjE) (simp_all add: keys_record_edge, blast)
  with Cons.IH[OF c] show ?case
    by (simp add: scope_edges_Cons image_Un Un_ac)
qed

lemma get_entry_Nil: "get_entry [] k = default_entry"
  by (simp add: get_entry_def)

lemma collected_children:
  "collect_edges elr rels [] = Inr m \<Longrightarrow>
     set (children (get_entry m k)) = {c. (k, c) \<in> scope_edges elr rels}"
  using collect_edges_children[of elr rels "[]" m k]
  by (simp add: get_entry_Nil default_entry_def)

lemma collected_keys:
  assumes "collect_edges elr rels [] = Inr m"
  shows "fst ` set m =
     (\<Union>rel \<in> set rels. case endpoints rel of
         None \<Rightarrow> {}
       | Some (pq, cq) \<Rightarrow> {role_prefix elr @ localName pq, localName cq})"
proof -
  have "fst ` set m = fst ` scope_edges elr rels \<union> snd ` scope_edges elr rels"
    using collect_edges_keys[OF assms] by simp
  also have "\<dots> = (\<Union>rel \<in> set rels. case endpoints rel of
         None \<Rightarrow> {}
       | Some (pq, cq) \<Rightarrow> {role_prefix elr @ localName pq, localName cq})"
    by (induction rels) (auto simp: scope_edges_Nil scope_edges_Cons split: option.splits)
  finally show ?thesis .
qed

lemma build_tree_edges:
  "\<forall>t. fst (build_hierarchy m n v d) = Some t \<longrightarrow>
        name t = n \<and> (\<forall>(p, c) \<in> set (tree_edges t). c \<in> set (children (get_entry m p)))"
  "\<forall>t \<in> set (fst (build_children m cs v d)).
        name t \<in> set cs \<and> (\<forall>(p, c) \<in> set (tree_edges t). c \<in> set (children (get_entry m p)))"
proof (induct m n v d and m cs v d rule: build_hierarchy_build_children.induct)
  case (1 m node_name visited depth)
  show ?case
  proof (cases "node_name \<in> visited")
    case True
    then show ?thesis by (simp add: build_hierarchy_eq)
  next
    case False
    from 1[OF False] False show ?thesis
      by (auto simp: build_hierarchy_eq)
  qed
next
  case (2 m visited depth)
  then show ?case by (simp add: build_children_Nil)
next
  case (3 m child_name rest visited depth)
  show ?case
  proof (cases "child_name \<in> fst ` set m")
    case True
    obtain r v1 where a: "build_hierarchy m child_name visited (depth + 1) = (r, v1)"
      by (cases "build_hierarchy m child_name visited (depth + 1)")
    with visited_restored(1)[of m child_name visited "depth + 1"] have v1: "v1 = visited"
      by simp
    from 3(2)[OF True a[symmetric]] v1
    have rest: "\<forall>t \<in> set (fst (build_children m rest visited depth)).
        name t \<in> set rest \<and>
        (\<forall>(p, c) \<in> set (tree_edges t). c \<in> set (children (get_entry m p)))" by simp
    from 3(1)[OF True] a
    have hd: "\<forall>t. r = Some t \<longrightarrow> name t = child_name \<and>
        (\<forall>(p, c) \<in> set (tree_edges t). c \<in> set (children (get_entry m p)))"
      by simp
    from True a rest hd show ?thesis
      by (auto simp: build_children_Cons split: option.splits)
  next
    case False
    with 3(3)[OF False] show ?thesis by (simp add: build_children_Cons)
  qed
qed

subsection \<open>The fallback of root resolution\<close>

text \<open>
  The keys of the map are the prefixed parent names and the bare child names; the names
  listed as children are the bare child names. When no child name of the scope holds a
  \<open>[\<close>, the difference of line 85 is the set of the prefixed parent names, which is not
  empty as soon as one relationship was recorded: the test of line 87 fails and the
  assignment of line 89 is not reached.
\<close>

lemma distinct_record_edge:
  "distinct (map fst m) \<Longrightarrow> distinct (map fst (record_edge pn pa cn ca m))"
  by (auto simp: record_edge_def Let_def intro!: distinct_map_entry simp: dom_map_entry)

lemma collect_edges_distinct:
  "collect_edges elr rels m = Inr m' \<Longrightarrow> distinct (map fst m) \<Longrightarrow> distinct (map fst m')"
proof (induction rels arbitrary: m)
  case Nil
  then show ?case by simp
next
  case (Cons rel rels)
  from Cons.prems obtain m1 where
    a: "add_relationship elr rel m = Inr m1" and c: "collect_edges elr rels m1 = Inr m'"
    by (auto split: sum.splits)
  from add_relationship_cases[OF a] Cons.prems(2) have "distinct (map fst m1)"
    by (auto simp: distinct_record_edge)
  from Cons.IH[OF c this] show ?case .
qed

lemma collected_all_children:
  assumes "collect_edges elr rels [] = Inr m"
  shows "all_children m = snd ` scope_edges elr rels"
proof -
  have d: "distinct (map fst m)" using collect_edges_distinct[OF assms] by simp
  have "all_children m = (\<Union>k \<in> fst ` set m. set (children (get_entry m k)))"
  proof -
    have "\<And>k e. (k, e) \<in> set m \<Longrightarrow> get_entry m k = e"
      using d by (simp add: get_entry_def)
    then show ?thesis
      by (auto simp: all_children_def)
  qed
  also have "\<dots> = (\<Union>k \<in> fst ` set m. {c. (k, c) \<in> scope_edges elr rels})"
    using collected_children[OF assms] by simp
  also have "\<dots> = snd ` scope_edges elr rels"
  proof (rule set_eqI, rule iffI)
    fix c
    assume "c \<in> (\<Union>k \<in> fst ` set m. {c. (k, c) \<in> scope_edges elr rels})"
    then obtain k where "(k, c) \<in> scope_edges elr rels" by blast
    then show "c \<in> snd ` scope_edges elr rels" by (rule image_eqI[rotated]) simp
  next
    fix c
    assume "c \<in> snd ` scope_edges elr rels"
    then obtain k where e: "(k, c) \<in> scope_edges elr rels" by auto
    then have "k \<in> fst ` scope_edges elr rels" by (rule image_eqI[rotated]) simp
    then have "k \<in> fst ` set m" unfolding collect_edges_keys[OF assms] by simp
    with e show "c \<in> (\<Union>k \<in> fst ` set m. {c. (k, c) \<in> scope_edges elr rels})" by blast
  qed
  finally show ?thesis .
qed

lemma fallback_unreachable:
  assumes "collect_edges elr rels [] = Inr m"
    and "m \<noteq> []"
    and "\<forall>rel \<in> set rels. \<forall>pq cq. endpoints rel = Some (pq, cq) \<longrightarrow>
           CHR ''['' \<notin> set (localName cq)"
  shows "all_parents m - all_children m = fst ` scope_edges elr rels"
    and "all_parents m - all_children m \<noteq> {}"
    and "root_nodes m = fst ` scope_edges elr rels"
proof -
  let ?E = "scope_edges elr rels"
  have k: "all_parents m = fst ` ?E \<union> snd ` ?E"
    using collect_edges_keys[OF assms(1)] by (simp add: all_parents_def)
  have c: "all_children m = snd ` ?E" by (rule collected_all_children[OF assms(1)])
  have disj: "fst ` ?E \<inter> snd ` ?E = {}"
  proof (rule ccontr)
    assume "fst ` ?E \<inter> snd ` ?E \<noteq> {}"
    then obtain x where x: "x \<in> fst ` ?E" "x \<in> snd ` ?E" by blast
    from x(1) have "CHR ''['' \<in> set x" by (auto simp: scope_edges_def)
    moreover from x(2) assms(3) have "CHR ''['' \<notin> set x" by (auto simp: scope_edges_def)
    ultimately show False by simp
  qed
  show d: "all_parents m - all_children m = fst ` ?E"
    unfolding k c using disj by blast
  from assms(2) have "fst ` set m \<noteq> {}" by (cases m) auto
  with k have "?E \<noteq> {}" by (auto simp: all_parents_def)
  then show ne: "all_parents m - all_children m \<noteq> {}"
    unfolding d by simp
  then show "root_nodes m = fst ` ?E"
    using d by (simp add: root_nodes_def)
qed

subsection \<open>The last segment of the link role\<close>

lemma split_str_nonempty: "split_str sep s \<noteq> []"
  by (induction s) (auto split: list.splits)

lemma split_str_no_sep: "\<forall>w \<in> set (split_str sep s). sep \<notin> set w"
  by (induction s) (auto split: list.splits)

lemma split_str_last:
  "\<exists>pre. s = pre @ last (split_str sep s) \<and>
     (pre = [] \<and> length (split_str sep s) = 1 \<or>
      pre \<noteq> [] \<and> last pre = sep \<and> length (split_str sep s) > 1)"
proof (induction s)
  case Nil
  then show ?case by simp
next
  case (Cons c cs)
  then obtain pre where pre: "cs = pre @ last (split_str sep cs)"
    and alt: "pre = [] \<and> length (split_str sep cs) = 1 \<or>
              pre \<noteq> [] \<and> last pre = sep \<and> length (split_str sep cs) > 1"
    by blast
  show ?case
  proof (cases "c = sep")
    case True
    have "c # cs = (c # pre) @ last (split_str sep (c # cs))"
      using True pre split_str_nonempty[of sep cs] by simp
    moreover have "last (c # pre) = sep" using True alt by auto
    moreover have "length (split_str sep (c # cs)) > 1"
      using True split_str_nonempty[of sep cs] by (cases "split_str sep cs") auto
    ultimately show ?thesis by blast
  next
    case False
    obtain w ws where w: "split_str sep cs = w # ws"
      using split_str_nonempty[of sep cs] by (cases "split_str sep cs") auto
    show ?thesis
    proof (cases "ws = []")
      case True
      with w alt pre have "cs = w" by auto
      with w True False show ?thesis by simp
    next
      case ws: False
      with w alt have p: "pre \<noteq> []" "last pre = sep" by auto
      have "c # cs = (c # pre) @ last (split_str sep (c # cs))"
        using False w ws pre by simp
      moreover have "last (c # pre) = sep" using p by simp
      moreover have "length (split_str sep (c # cs)) > 1"
        using False w ws by (cases ws) auto
      ultimately show ?thesis by blast
    qed
  qed
qed

lemma last_segment:
  "\<exists>pre. elr = pre @ last (split_str CHR ''/'' elr) \<and>
         CHR ''/'' \<notin> set (last (split_str CHR ''/'' elr)) \<and>
         (pre = [] \<or> last pre = CHR ''/'')"
proof -
  have "last (split_str CHR ''/'' elr) \<in> set (split_str CHR ''/'' elr)"
    using split_str_nonempty by simp
  then have "CHR ''/'' \<notin> set (last (split_str CHR ''/'' elr))"
    using split_str_no_sep by blast
  with split_str_last[of elr "CHR ''/''"] show ?thesis by blast
qed

lemma process_relationships_collected:
  "process_relationships ord arcrole rs elr = Inr h \<Longrightarrow>
     \<exists>m. collect_edges elr (scope_relationships rs) [] = Inr m \<and> h = build_roots ord m"
  by (auto simp: process_relationships_def scope_relationships_def
           split: option.splits sum.splits if_splits)

lemma build_roots_trees:
  "(root, tree) \<in> set (build_roots ord m) \<Longrightarrow>
     \<exists>t. tree = Some t \<and> name t = root \<and> acyclic_node t \<and>
         (\<forall>(p, c) \<in> set (tree_edges t). c \<in> set (children (get_entry m p)))"
proof -
  assume "(root, tree) \<in> set (build_roots ord m)"
  then have tree: "tree = fst (build_hierarchy m root {} 0)"
    by (auto simp: build_roots_def)
  from build_top_level[of m root] obtain t where
    t: "fst (build_hierarchy m root {} 0) = Some t" "name t = root" "acyclic_node t"
    by blast
  with build_tree_edges(1)[of m root "{}" 0] tree show ?thesis by auto
qed

lemma foldr_max_le: "(\<forall>x \<in> set xs. x \<le> k) \<Longrightarrow> foldr max xs 0 \<le> (k::nat)"
  by (induction xs) auto

lemma child_tree_edges:
  "c \<in> set (node_children t) \<Longrightarrow>
     (name t, name c) \<in> set (tree_edges t) \<and> set (tree_edges c) \<subseteq> set (tree_edges t)"
  by (cases t) auto

lemma grandchild_tree_edges:
  "c \<in> set (node_children t) \<Longrightarrow> g \<in> set (node_children c) \<Longrightarrow>
     (name c, name g) \<in> set (tree_edges t)"
  using child_tree_edges[of c t] child_tree_edges[of g c] by blast

lemma leaves_depth:
  "\<forall>c \<in> set (node_children t). node_children c = [] \<Longrightarrow> node_depth t \<le> 2"
proof (cases t)
  case (Node n a cs)
  assume l: "\<forall>c \<in> set (node_children t). node_children c = []"
  have "\<forall>x \<in> set (map node_depth cs). x \<le> 1"
  proof
    fix x assume "x \<in> set (map node_depth cs)"
    then obtain c where c: "c \<in> set cs" "x = node_depth c" by auto
    with l Node have "node_children c = []" by simp
    with c(2) show "x \<le> 1" by (cases c) simp
  qed
  from foldr_max_le[OF this] Node show ?thesis by simp
qed

lemma bracket_free_children:
  assumes "\<forall>rel \<in> set rels. \<forall>pq cq. endpoints rel = Some (pq, cq) \<longrightarrow>
             CHR ''['' \<notin> set (localName cq)"
  shows "\<forall>rel \<in> set rels. \<forall>rel' \<in> set rels.
           \<forall>pq cq pq' cq'. endpoints rel = Some (pq, cq) \<longrightarrow> endpoints rel' = Some (pq', cq') \<longrightarrow>
             localName cq \<noteq> role_prefix elr @ localName pq'"
proof (intro ballI allI impI notI)
  fix rel rel' pq cq pq' cq'
  assume "rel \<in> set rels" "endpoints rel = Some (pq, cq)"
    and eq: "localName cq = role_prefix elr @ localName pq'"
  with assms have "CHR ''['' \<notin> set (localName cq)" by blast
  moreover have "CHR ''['' \<in> set (role_prefix elr @ localName pq')"
    by (simp add: role_prefix_def)
  ultimately show False using eq by simp
qed
lemma role_prefix_shape:
  "\<exists>pre seg. elr = pre @ seg \<and> CHR ''/'' \<notin> set seg \<and> (pre = [] \<or> last pre = CHR ''/'') \<and>
      role_prefix elr = ''['' @ seg @ ''] ''"
  using last_segment[of elr] unfolding role_prefix_def by blast

subsection \<open>The examples\<close>

lemma endpoints_arc [simp]:
  "endpoints (arc a b) =
     Some (\<lparr>localName = a, qname_str = ''t:'' @ a\<rparr>, \<lparr>localName = b, qname_str = ''t:'' @ b\<rparr>)"
  by (simp add: endpoints_def arc_def concept_def)

lemma scope_relationships_scope [simp]: "scope_relationships (scope rels) = rels"
  by (simp add: scope_relationships_def scope_def)

lemma cycle_is_cut:
  "collect_edges balance_role [arc ''A'' ''[Balance] B'', arc ''B'' ''[Balance] A''] [] =
     Inr ring_map"
  "build_hierarchy ring_map ''[Balance] A'' {} 0 =
     (Some (Node ''[Balance] A'' False [Node ''[Balance] B'' False []]), {})"
  by code_simp+

subsection \<open>Records that are left out\<close>

lemma add_relationship_skip:
  "skipped_silently rel \<Longrightarrow> add_relationship elr rel m = Inr m"
  by (auto simp: add_relationship_def skipped_silently_def split: option.splits)

lemma add_relationship_raises:
  "raises rel \<Longrightarrow> add_relationship elr rel m = Inl AttributeError"
  by (auto simp: add_relationship_def raises_def skipped_silently_def endpoints_def
           split: option.splits qname_attr.splits)

lemma not_accepted_cases:
  "endpoints rel = None \<Longrightarrow> skipped_silently rel \<or> raises rel"
  by (simp add: raises_def)

lemma collect_edges_skip_and_continue:
  "\<forall>rel \<in> set rels. \<not> raises rel \<Longrightarrow>
     collect_edges elr rels m = collect_edges elr (filter (\<lambda>rel. endpoints rel \<noteq> None) rels) m"
proof (induction rels arbitrary: m)
  case Nil
  then show ?case by simp
next
  case (Cons rel rels)
  show ?case
  proof (cases "endpoints rel")
    case None
    with Cons.prems have "skipped_silently rel" using not_accepted_cases[of rel] by auto
    with None Cons show ?thesis by (simp add: add_relationship_skip)
  next
    case (Some a)
    with Cons show ?thesis by (simp split: sum.splits)
  qed
qed

lemma error_unique: "(e::error) = AttributeError"
  by (cases e)

lemma collect_edges_raises:
  "\<exists>rel \<in> set rels. raises rel \<Longrightarrow> collect_edges elr rels m = Inl AttributeError"
proof (induction rels arbitrary: m)
  case Nil
  then show ?case by simp
next
  case (Cons rel rels)
  show ?case
  proof (cases "raises rel")
    case True
    then show ?thesis by (simp add: add_relationship_raises)
  next
    case False
    with Cons.prems have "\<exists>rel \<in> set rels. raises rel" by simp
    from Cons.IH[OF this] show ?thesis by (simp add: error_unique split: sum.splits)
  qed
qed

lemma flat_step_accepted:
  "named_endpoints rel \<Longrightarrow> snd (flat_step rel st) = snd st"
  by (cases st)
     (auto simp: flat_step_def named_endpoints_def endpoints_def
           split: option.splits qname_attr.splits)

lemma flat_step_skipped:
  "\<not> named_endpoints rel \<Longrightarrow> flat_step rel st = (fst st, snd st @ [skip_entry rel])"
  by (cases st)
     (auto simp: flat_step_def named_endpoints_def endpoints_def skip_entry_def
           split: option.splits qname_attr.splits)

lemma flat_loop_skip_and_continue:
  "fst (fold flat_step rels st) =
     fst (fold flat_step (filter named_endpoints rels) (fst st, []))
   \<and> snd (fold flat_step rels st) =
     snd st @ map skip_entry (filter (\<lambda>rel. \<not> named_endpoints rel) rels)"
proof (induction rels arbitrary: st)
  case Nil
  then show ?case by simp
next
  case (Cons rel rels)
  show ?case
  proof (cases "named_endpoints rel")
    case False
    then show ?thesis using Cons[of "(fst st, snd st @ [skip_entry rel])"]
      by (simp add: flat_step_skipped)
  next
    case True
    obtain h sk where st: "st = (h, sk)" by (cases st)
    have f: "fst (flat_step rel (h, sk)) = fst (flat_step rel (h, []))"
      using True
      by (auto simp: flat_step_def named_endpoints_def endpoints_def
               split: option.splits qname_attr.splits)
    have s: "snd (flat_step rel (h, sk)) = sk" "snd (flat_step rel (h, [])) = []"
      using flat_step_accepted[OF True] by simp_all
    have 1: "flat_step rel (h, []) = (fst (flat_step rel (h, sk)), [])"
      using f s by (metis prod.collapse)
    show ?thesis using Cons[of "flat_step rel st"] True st s 1 by simp
  qed
qed

subsection \<open>The merge of \<open>parse_taxonomy\<close>\<close>

lemma merge_scope_lookup:
  "distinct (map fst items) \<Longrightarrow>
   map_of (merge_scope u items) p =
     (case map_of u p of
        None \<Rightarrow> map_of items p
      | Some e \<Rightarrow>
          (case map_of items p of
             None \<Rightarrow> Some e
           | Some d \<Rightarrow> Some (e\<lparr>flat_children := flat_children e @ flat_children d\<rparr>)))"
proof (induction items arbitrary: u)
  case Nil
  then show ?case by (simp split: option.splits)
next
  case (Cons kv items)
  obtain k v where kv: "kv = (k, v)" by (cases kv)
  from Cons.prems kv have d: "distinct (map fst items)" and nk: "k \<notin> fst ` set items" by auto
  from nk have none: "map_of items k = None" by (simp add: map_of_eq_None_iff)
  show ?case
  proof (cases "k \<in> fst ` set u")
    case True
    then obtain e where e: "map_of u k = Some e" by (auto simp: in_keys_iff)
    from True kv Cons.IH[OF d, of "AList.map_entry k (\<lambda>e. e\<lparr>flat_children := flat_children e @ flat_children v\<rparr>) u"]
    show ?thesis using e none
      by (auto simp: map_of_map_entry split: option.splits)
  next
    case False
    then have "map_of u k = None" by (simp add: map_of_eq_None_iff)
    with False kv Cons.IH[OF d, of "u @ [(k, v)]"] none show ?thesis
      by (auto simp: map_add_def split: option.splits)
  qed
qed

section \<open>Facts about the formula walker\<close>

lemma node_levels_eq:
  "node_levels (FormulaNode t l chs) = Suc (foldr max (map hierarchy_levels chs) 0)"
proof -
  have "(\<lambda>h. foldr max (map (\<lambda>kn. node_levels (snd kn)) h) 0) = hierarchy_levels"
    by (rule ext) (simp add: hierarchy_levels_def)
  then show ?thesis by simp
qed

declare node_levels.simps [simp del]

lemma hierarchy_levels_simps [simp]:
  "hierarchy_levels [] = 0"
  "hierarchy_levels ((k, n) # h) = max (node_levels n) (hierarchy_levels h)"
  "hierarchy_levels (h @ h') = max (hierarchy_levels h) (hierarchy_levels h')"
  by (induction h) (auto simp: hierarchy_levels_def)

lemma foldr_max_init: "foldr max xs (x::nat) = max (foldr max xs 0) x"
  by (induction xs) auto

lemma levels_append_child:
  "hierarchy_levels (append_child nm ch h) \<le> max (hierarchy_levels h) (Suc (hierarchy_levels ch))"
proof (induction h)
  case Nil
  then show ?case by (simp add: append_child_def)
next
  case (Cons kn h)
  obtain k n where kn: "kn = (k, n)" by (cases kn)
  obtain t l chs where n: "n = FormulaNode t l chs" by (cases n)
  show ?case
    using Cons kn n
    by (auto simp: append_child_def node_levels_eq foldr_max_init[of _ "hierarchy_levels ch"])
qed

declare process_formula_object.simps [simp del] process_formula_children.simps [simp del]

lemma formula_visited_restored:
  "snd (process_formula_object obj rs h v d mx) = v"
  "snd (process_formula_children cs rs nm h v d mx) = v"
proof (induct obj rs h v d mx and cs rs nm h v d mx
       rule: process_formula_object_process_formula_children.induct)
  case (1 obj rs h visited depth max_depth)
  note eq = process_formula_object.simps[of obj rs h visited depth max_depth]
  let ?h1 = "if obj_name_of obj \<in> fst ` set h then h
             else h @ [(obj_name_of obj, FormulaNode (obj_localName obj) (xlinkLabel obj) [])]"
  show ?case
  proof (cases "depth > max_depth")
    case True
    with eq show ?thesis by simp
  next
    case d: False
    show ?thesis
    proof (cases "obj \<in> visited")
      case True
      with eq d show ?thesis by simp
    next
      case nv: False
      show ?thesis
      proof (cases rs)
        case None
        with eq d nv show ?thesis by (simp add: Let_def)
      next
        case (Some from_object)
        obtain h2 v2 where c: "process_formula_children (from_object obj) rs (obj_name_of obj)
              ?h1 (insert obj visited) depth max_depth = (h2, v2)"
          by (cases "process_formula_children (from_object obj) rs (obj_name_of obj)
              ?h1 (insert obj visited) depth max_depth")
        from 1[OF d nv refl Some] c have "v2 = insert obj visited" by simp
        with eq d nv Some c show ?thesis by (simp add: Let_def)
      qed
    qed
  qed
next
  case (2 rs obj_name h visited depth max_depth)
  then show ?case by (simp add: process_formula_children.simps)
next
  case (3 to_object rest rs obj_name h visited depth max_depth)
  note eq = process_formula_children.simps(2)[of to_object rest rs obj_name h visited depth max_depth]
  show ?case
  proof (cases to_object)
    case None
    with 3(1) eq show ?thesis by simp
  next
    case (Some child)
    obtain ch v1 where a: "process_formula_object child rs [] visited (depth + 1) max_depth = (ch, v1)"
      by (cases "process_formula_object child rs [] visited (depth + 1) max_depth")
    from 3(2)[OF Some] a have v1: "v1 = visited" by simp
    from 3(3)[OF Some a[symmetric]] v1
    have "snd (process_formula_children rest rs obj_name (append_child obj_name ch h)
                 visited depth max_depth) = visited" by simp
    with Some a v1 eq show ?thesis by simp
  qed
qed

lemma process_formula_object_eq:
  "process_formula_object obj rs h v d mx =
     (if d > mx \<or> obj \<in> v then (h, v)
      else
        (case rs of
           None \<Rightarrow>
             (if obj_name_of obj \<in> fst ` set h then h
              else h @ [(obj_name_of obj, FormulaNode (obj_localName obj) (xlinkLabel obj) [])], v)
         | Some from_object \<Rightarrow>
             (fst (process_formula_children (from_object obj) rs (obj_name_of obj)
                     (if obj_name_of obj \<in> fst ` set h then h
                      else h @ [(obj_name_of obj,
                                 FormulaNode (obj_localName obj) (xlinkLabel obj) [])])
                     (insert obj v) d mx), v)))"
proof -
  note eq = process_formula_object.simps[of obj rs h v d mx]
  let ?h1 = "if obj_name_of obj \<in> fst ` set h then h
             else h @ [(obj_name_of obj, FormulaNode (obj_localName obj) (xlinkLabel obj) [])]"
  show ?thesis
  proof (cases "d > mx \<or> obj \<in> v")
    case True
    with eq show ?thesis by auto
  next
    case False
    show ?thesis
    proof (cases rs)
      case None
      with eq False show ?thesis by (simp add: Let_def)
    next
      case (Some from_object)
      obtain h2 v2 where c: "process_formula_children (from_object obj) rs (obj_name_of obj)
            ?h1 (insert obj v) d mx = (h2, v2)"
        by (cases "process_formula_children (from_object obj) rs (obj_name_of obj)
            ?h1 (insert obj v) d mx")
      with formula_visited_restored(2)[of "from_object obj" rs "obj_name_of obj" ?h1
             "insert obj v" d mx]
      have "v2 = insert obj v" by simp
      with eq False Some c show ?thesis by (simp add: Let_def)
    qed
  qed
qed

lemma process_formula_children_Nil:
  "process_formula_children [] rs nm h v d mx = (h, v)"
  by (simp add: process_formula_children.simps)

lemma process_formula_children_Cons:
  "process_formula_children (to_object # rest) rs nm h v d mx =
     (case to_object of
        None \<Rightarrow> process_formula_children rest rs nm h v d mx
      | Some child \<Rightarrow>
          process_formula_children rest rs nm
            (append_child nm (fst (process_formula_object child rs [] v (d + 1) mx)) h) v d mx)"
proof (cases to_object)
  case None
  then show ?thesis by (simp add: process_formula_children.simps)
next
  case (Some child)
  obtain ch v1 where a: "process_formula_object child rs [] v (d + 1) mx = (ch, v1)"
    by (cases "process_formula_object child rs [] v (d + 1) mx")
  with formula_visited_restored(1)[of child rs "[]" v "d + 1" mx] have "v1 = v" by simp
  with Some a show ?thesis by (simp add: process_formula_children.simps)
qed

lemma formula_levels_bound:
  "hierarchy_levels (fst (process_formula_object obj rs h v d mx))
     \<le> max (hierarchy_levels h) (Suc mx - d)"
  "d \<le> mx \<longrightarrow>
   hierarchy_levels (fst (process_formula_children cs rs nm h v d mx))
     \<le> max (hierarchy_levels h) (Suc mx - d)"
proof (induct obj rs h v d mx and cs rs nm h v d mx
       rule: process_formula_object_process_formula_children.induct)
  case (1 obj rs h visited depth max_depth)
  note eq = process_formula_object_eq[of obj rs h visited depth max_depth]
  let ?h1 = "if obj_name_of obj \<in> fst ` set h then h
             else h @ [(obj_name_of obj, FormulaNode (obj_localName obj) (xlinkLabel obj) [])]"
  show ?case
  proof (cases "depth > max_depth \<or> obj \<in> visited")
    case True
    with eq show ?thesis by simp
  next
    case False
    then have d: "\<not> max_depth < depth" and nv: "obj \<notin> visited" by auto
    have l1: "hierarchy_levels ?h1 \<le> max (hierarchy_levels h) (Suc max_depth - depth)"
      using d by (auto simp: node_levels_eq)
    show ?thesis
    proof (cases rs)
      case None
      with eq False l1 show ?thesis by simp
    next
      case (Some from_object)
      from 1[OF d nv refl Some] d
      have "hierarchy_levels (fst (process_formula_children (from_object obj) rs
               (obj_name_of obj) ?h1 (insert obj visited) depth max_depth))
             \<le> max (hierarchy_levels ?h1) (Suc max_depth - depth)"
        by simp
      with l1 have "hierarchy_levels (fst (process_formula_children (from_object obj) rs
               (obj_name_of obj) ?h1 (insert obj visited) depth max_depth))
             \<le> max (hierarchy_levels h) (Suc max_depth - depth)"
        by linarith
      with eq False Some show ?thesis by simp
    qed
  qed
next
  case (2 rs obj_name h visited depth max_depth)
  then show ?case by (simp add: process_formula_children_Nil)
next
  case (3 to_object rest rs obj_name h visited depth max_depth)
  note eq = process_formula_children_Cons[of to_object rest rs obj_name h visited depth max_depth]
  show ?case
  proof (cases to_object)
    case None
    with 3(1)[OF None] eq show ?thesis by simp
  next
    case (Some child)
    obtain ch v1 where a: "process_formula_object child rs [] visited (depth + 1) max_depth = (ch, v1)"
      by (cases "process_formula_object child rs [] visited (depth + 1) max_depth")
    with formula_visited_restored(1)[of child rs "[]" visited "depth + 1" max_depth]
    have v1: "v1 = visited" by simp
    from 3(2)[OF Some] a have ch: "hierarchy_levels ch \<le> Suc max_depth - (depth + 1)" by simp
    show ?thesis
    proof
      assume le: "depth \<le> max_depth"
      from 3(3)[OF Some a[symmetric]] v1 le
      have r: "hierarchy_levels (fst (process_formula_children rest rs obj_name
                  (append_child obj_name ch h) visited depth max_depth))
               \<le> max (hierarchy_levels (append_child obj_name ch h)) (Suc max_depth - depth)"
        by simp
      from levels_append_child[of obj_name ch h] ch le
      have "hierarchy_levels (append_child obj_name ch h)
              \<le> max (hierarchy_levels h) (Suc max_depth - depth)" by simp
      with r have "hierarchy_levels (fst (process_formula_children rest rs obj_name
                  (append_child obj_name ch h) visited depth max_depth))
               \<le> max (hierarchy_levels h) (Suc max_depth - depth)" by linarith
      with Some a eq show "hierarchy_levels
         (fst (process_formula_children (to_object # rest) rs obj_name h visited depth max_depth))
        \<le> max (hierarchy_levels h) (Suc max_depth - depth)" by simp
    qed
  qed
qed

lemma chain_obj_inj: "chain_obj i = chain_obj j \<longleftrightarrow> i = j"
  by (auto simp: chain_obj_def)

lemma chain_obj_name: "obj_name_of (chain_obj i) = replicate (Suc i) CHR ''v''"
  by (simp add: obj_name_of_def chain_obj_def)

lemma chain_walk:
  "\<forall>j \<ge> i. chain_obj j \<notin> v \<Longrightarrow> k = Suc mx - d \<Longrightarrow>
     process_formula_object (chain_obj i) (Some (chain_rels n)) [] v d mx
       = (truncated_chain n k i, v)"
proof (induction k arbitrary: i d v)
  case 0
  then have "d > mx" by simp
  then show ?case by (simp add: process_formula_object_eq)
next
  case (Suc k)
  from Suc.prems have d: "\<not> d > mx" and k: "k = Suc mx - (d + 1)" by simp_all
  from Suc.prems have nv: "chain_obj i \<notin> v" by simp
  show ?case
  proof (cases "Suc i < n")
    case True
    have fresh: "\<forall>j \<ge> Suc i. chain_obj j \<notin> insert (chain_obj i) v"
      using Suc.prems(1) by (auto simp: chain_obj_inj)
    from Suc.IH[OF fresh k]
    have c: "process_formula_object (chain_obj (Suc i)) (Some (chain_rels n)) []
               (insert (chain_obj i) v) (d + 1) mx
             = (truncated_chain n k (Suc i), insert (chain_obj i) v)" .
    then have c': "process_formula_object (chain_obj (Suc i)) (Some (chain_rels n)) []
               (insert (chain_obj i) v) (Suc d) mx
             = (truncated_chain n k (Suc i), insert (chain_obj i) v)" by simp
    have t: "obj_localName (chain_obj i) = ''variable''"
      "xlinkLabel (chain_obj i) = Some (replicate (Suc i) CHR ''v'')"
      by (simp_all add: chain_obj_def)
    have r: "chain_rels n (chain_obj i) = [Some (chain_obj (Suc i))]"
      using True by (simp add: chain_rels_def chain_obj_def)
    show ?thesis
      using d nv True
      by (simp add: process_formula_object_eq[of "chain_obj i"] r c' t
            process_formula_children_Cons process_formula_children_Nil
            chain_obj_name append_child_def)
  next
    case False
    have r: "chain_rels n (chain_obj i) = []"
      using False by (simp add: chain_rels_def chain_obj_def)
    have t: "obj_localName (chain_obj i) = ''variable''"
      "xlinkLabel (chain_obj i) = Some (replicate (Suc i) CHR ''v'')"
      by (simp_all add: chain_obj_def)
    show ?thesis
      using d nv False
      by (simp add: process_formula_object_eq[of "chain_obj i"] r t
            process_formula_children_Nil chain_obj_name)
  qed
qed

lemma truncated_chain_example:
  "truncated_chain 5 3 0 =
     [(''v'', FormulaNode ''variable'' (Some ''v'')
        [[(''vv'', FormulaNode ''variable'' (Some ''vv'')
            [[(''vvv'', FormulaNode ''variable'' (Some ''vvv'') [[]])]])]])]"
  by (simp add: numeral_3_eq_3)

lemma truncated_chain_levels:
  "i + k \<le> n \<Longrightarrow> hierarchy_levels (truncated_chain n k i) = k"
proof (induction k arbitrary: i)
  case 0
  then show ?case by simp
next
  case (Suc k)
  show ?case
  proof (cases "Suc i < n")
    case True
    with Suc.prems Suc.IH[of "Suc i"] show ?thesis
      by (simp add: node_levels_eq)
  next
    case False
    with Suc.prems have "k = 0" by simp
    with False show ?thesis by (simp add: node_levels_eq)
  qed
qed

section \<open>Evaluation of the examples\<close>

lemmas dim_eval = process_relationships_def scope_def arc_def concept_def add_relationship_def
  record_edge_def default_entry_def build_roots_def root_order_def root_nodes_def
  all_parents_def all_children_def get_entry_def build_hierarchy_eq build_children_Cons
  build_children_Nil role_prefix_def

lemmas flat_eval = process_relationships_flat_def flat_loop_def flat_step_def add_child_def
  scope_def arc_def concept_def

text \<open>
  A scope whose child names carry the prefix themselves, so that the name stored and the
  name looked up are the same: the tree of \<open>A\<close> then holds \<open>D\<close> under \<open>B\<close> and again
  under \<open>C\<close>.
\<close>

lemma fan_in_when_keys_meet:
  "process_relationships ord arcrole
     (scope [arc ''A'' ''[Balance] B'', arc ''A'' ''[Balance] C'', arc ''B'' ''D'',
             arc ''C'' ''D'']) balance_role =
   Inr [(''[Balance] A'',
         Some (Node ''[Balance] A'' False
                 [Node ''[Balance] B'' False [Node ''D'' False []],
                  Node ''[Balance] C'' False [Node ''D'' False []]]))]"
  by (simp add: dim_eval balance_role_def)

section \<open>Acyclic output\<close>

text \<open>
  Claim C1. Whatever relationships one scope holds, every tree that
  \<open>process_relationships\<close> returns is free of cycles: the name of a node never occurs
  among the names below it. This holds also when the relationships run in a circle.
\<close>

theorem process_relationships_acyclic:
  assumes "process_relationships ord arcrole rs elr = Inr h"
  shows "\<forall>(root, tree) \<in> set h. \<exists>t. tree = Some t \<and> name t = root \<and> acyclic_node t"
proof -
  from assms obtain m where h: "h = build_roots ord m"
    by (auto simp: process_relationships_def split: sum.splits)
  show ?thesis
    unfolding h build_roots_def using build_top_level by auto
qed

theorem process_relationships_acyclic_witness:
  "process_relationships insertion_order ''arcrole'' (scope [arc ''A'' ''B'', arc ''B'' ''A'']) balance_role =
     Inr [(''[Balance] A'', Some (Node ''[Balance] A'' False [Node ''B'' False []])),
          (''[Balance] B'', Some (Node ''[Balance] B'' False [Node ''A'' False []]))]
   \<and> process_relationships reversed_order ''arcrole'' (scope [arc ''A'' ''B'', arc ''B'' ''A'']) balance_role =
     Inr [(''[Balance] B'', Some (Node ''[Balance] B'' False [Node ''A'' False []])),
          (''[Balance] A'', Some (Node ''[Balance] A'' False [Node ''B'' False []]))]
   \<and> acyclic_node (Node ''[Balance] A'' False [Node ''B'' False []])
   \<and> acyclic_node (Node ''[Balance] B'' False [Node ''A'' False []])"
proof -
  have r: "process_relationships reversed_order ''arcrole'' (scope [arc ''A'' ''B'', arc ''B'' ''A'']) balance_role =
     Inr [(''[Balance] B'', Some (Node ''[Balance] B'' False [Node ''A'' False []])),
          (''[Balance] A'', Some (Node ''[Balance] A'' False [Node ''B'' False []]))]"
    by (simp add: dim_eval balance_role_def)
  have e: "process_relationships insertion_order ''arcrole'' (scope [arc ''A'' ''B'', arc ''B'' ''A'']) balance_role =
     Inr [(''[Balance] A'', Some (Node ''[Balance] A'' False [Node ''B'' False []])),
          (''[Balance] B'', Some (Node ''[Balance] B'' False [Node ''A'' False []]))]"
    by (simp add: dim_eval balance_role_def)
  from process_relationships_acyclic[OF e]
  have "acyclic_node (Node ''[Balance] A'' False [Node ''B'' False []])"
    and "acyclic_node (Node ''[Balance] B'' False [Node ''A'' False []])"
    by auto
  with e r show ?thesis by blast
qed

section \<open>A chain of two relationships\<close>

text \<open>
  Claim C2. For the relationships \<open>A \<rightarrow> B\<close> and \<open>B \<rightarrow> C\<close> of one scope the
  claim expects the single root \<open>A\<close> with the tree \<open>A \<rightarrow> B \<rightarrow> C\<close>. The function
  returns, for every link role and every iteration order, two roots: the prefixed \<open>A\<close>
  with the leaf \<open>B\<close>, and the prefixed \<open>B\<close> with the leaf \<open>C\<close>. The children of \<open>B\<close> are
  stored under the prefixed name and looked up under the bare one. The second conjunct
  gives the list for the order of insertion.
\<close>

theorem chain_scope_result:
  "(\<exists>h. process_relationships ord arcrole (scope [arc ''A'' ''B'', arc ''B'' ''C'']) elr = Inr h
        \<and> length h = 2
        \<and> set h =
            {(role_prefix elr @ ''A'',
              Some (Node (role_prefix elr @ ''A'') False [Node ''B'' False []])),
             (role_prefix elr @ ''B'',
              Some (Node (role_prefix elr @ ''B'') False [Node ''C'' False []]))})
   \<and> process_relationships insertion_order arcrole
        (scope [arc ''A'' ''B'', arc ''B'' ''C'']) elr =
     Inr [(role_prefix elr @ ''A'', Some (Node (role_prefix elr @ ''A'') False [Node ''B'' False []])),
          (role_prefix elr @ ''B'', Some (Node (role_prefix elr @ ''B'') False [Node ''C'' False []]))]
   \<and> role_prefix elr @ ''A'' \<noteq> role_prefix elr @ ''B''"
proof -
  let ?m = "chain_scope_map elr"
  have c: "collect_edges elr [arc ''A'' ''B'', arc ''B'' ''C''] [] = Inr ?m"
    by (simp add: chain_scope_map_def arc_def concept_def add_relationship_def record_edge_def
          default_entry_def role_prefix_def)
  then have p: "process_relationships ord arcrole (scope [arc ''A'' ''B'', arc ''B'' ''C'']) elr =
      Inr (build_roots ord ?m)"
    by (simp add: process_relationships_def scope_def)
  have k: "all_parents ?m = {role_prefix elr @ ''A'', ''B'', role_prefix elr @ ''B'', ''C''}"
    by (simp add: all_parents_def chain_scope_map_def)
  have ch: "all_children ?m = {''B'', ''C''}"
    by (auto simp: all_children_def chain_scope_map_def)
  have d: "all_parents ?m - all_children ?m = {role_prefix elr @ ''A'', role_prefix elr @ ''B''}"
    unfolding k ch by (auto simp: role_prefix_def)
  then have r: "root_nodes ?m = {role_prefix elr @ ''A'', role_prefix elr @ ''B''}"
    by (simp add: root_nodes_def)
  have l: "length (build_roots ord ?m) = 2"
    unfolding length_build_roots r by simp
  have tA: "fst (build_hierarchy ?m (role_prefix elr @ ''A'') {} 0) =
      Some (Node (role_prefix elr @ ''A'') False [Node ''B'' False []])"
    by (simp add: chain_scope_map_def get_entry_def build_hierarchy_eq build_children_Cons
          build_children_Nil role_prefix_def)
  have tB: "fst (build_hierarchy ?m (role_prefix elr @ ''B'') {} 0) =
      Some (Node (role_prefix elr @ ''B'') False [Node ''C'' False []])"
    by (simp add: chain_scope_map_def get_entry_def build_hierarchy_eq build_children_Cons
          build_children_Nil role_prefix_def)
  have t: "set (build_roots ord ?m) =
      {(role_prefix elr @ ''A'',
        Some (Node (role_prefix elr @ ''A'') False [Node ''B'' False []])),
       (role_prefix elr @ ''B'',
        Some (Node (role_prefix elr @ ''B'') False [Node ''C'' False []]))}"
    unfolding set_build_roots r image_insert image_empty tA tB ..
  have b: "process_relationships insertion_order arcrole
        (scope [arc ''A'' ''B'', arc ''B'' ''C'']) elr =
     Inr [(role_prefix elr @ ''A'', Some (Node (role_prefix elr @ ''A'') False [Node ''B'' False []])),
          (role_prefix elr @ ''B'', Some (Node (role_prefix elr @ ''B'') False [Node ''C'' False []]))]"
    by (simp add: dim_eval)
  have e: "role_prefix elr @ ''A'' \<noteq> role_prefix elr @ ''B''"
    by simp
  from p l t b e show ?thesis by simp
qed

section \<open>Merging scopes\<close>

text \<open>
  Claim C3. The claim has a root that is already present take the children of the new
  scope at the end of its own. \<open>parse_taxonomy\<close> does so: two scopes that both give
  \<open>X\<close> under \<open>P\<close> leave \<open>X\<close> twice. \<open>parse_dimensions\<close> merges with
  \<open>dimensions.update\<close>: the root of the later scope replaces the earlier one, so \<open>X\<close>
  is there once, and the children of the earlier scope are lost when the later scope has
  others.
\<close>

theorem update_overwrites_scope:
  "parse_dimensions ord (clash_model ''X'' ''X'') =
     Inr [(''[Balance] P'', Some (Node ''[Balance] P'' False [Node ''X'' False []]))]
   \<and> parse_dimensions ord (clash_model ''X'' ''Y'') =
     Inr [(''[Balance] P'', Some (Node ''[Balance] P'' False [Node ''Y'' False []]))]
   \<and> parse_taxonomy_dimensions (clash_model ''X'' ''X'') =
     [(''t:P'', \<lparr>flat_abstract = False, flat_children =
         [\<lparr>child_name = ''t:X'', child_abstract = False\<rparr>,
          \<lparr>child_name = ''t:X'', child_abstract = False\<rparr>]\<rparr>)]"
proof -
  have a: "parse_dimensions ord (clash_model ''X'' ''X'') =
     Inr [(''[Balance] P'', Some (Node ''[Balance] P'' False [Node ''X'' False []]))]"
    by (simp add: parse_dimensions_def dim_arcroles_def clash_model_def balance_role_def dim_eval)
  have b: "parse_dimensions ord (clash_model ''X'' ''Y'') =
     Inr [(''[Balance] P'', Some (Node ''[Balance] P'' False [Node ''Y'' False []]))]"
    by (simp add: parse_dimensions_def dim_arcroles_def clash_model_def balance_role_def dim_eval)
  have c: "parse_taxonomy_dimensions (clash_model ''X'' ''X'') =
     [(''t:P'', \<lparr>flat_abstract = False, flat_children =
         [\<lparr>child_name = ''t:X'', child_abstract = False\<rparr>,
          \<lparr>child_name = ''t:X'', child_abstract = False\<rparr>]\<rparr>)]"
    by (simp add: parse_taxonomy_dimensions_def dim_arcroles_def clash_model_def flat_eval)
  from a b c show ?thesis by blast
qed

section \<open>Names in a link-role scope\<close>

text \<open>
  Claim C4. In the hierarchy built for one link role, a parent is recorded under the
  local name of its concept prefixed by \<open>[\<close>, the part of the link-role URI after its
  last \<open>/\<close>, \<open>]\<close> and a space; a child is recorded under the bare local name. The keys
  of the map are these names and no others; every accepted record puts the bare child name
  among the children of the prefixed parent name, every recorded child arises so, and every
  parent-child pair of the returned trees is of this shape.
\<close>

theorem link_role_names:
  assumes "process_relationships ord arcrole rs elr = Inr h"
    and "collect_edges elr (scope_relationships rs) [] = Inr m"
  shows "h = build_roots ord m \<and>
     (\<exists>pre seg. elr = pre @ seg \<and> CHR ''/'' \<notin> set seg \<and> (pre = [] \<or> last pre = CHR ''/'') \<and>
        role_prefix elr = ''['' @ seg @ ''] '') \<and>
     fst ` set m =
       (\<Union>rel \<in> set (scope_relationships rs). case endpoints rel of
           None \<Rightarrow> {}
         | Some (pq, cq) \<Rightarrow> {role_prefix elr @ localName pq, localName cq}) \<and>
     (\<forall>rel \<in> set (scope_relationships rs). \<forall>pq cq. endpoints rel = Some (pq, cq) \<longrightarrow>
        localName cq \<in> set (children (get_entry m (role_prefix elr @ localName pq)))) \<and>
     (\<forall>k c. c \<in> set (children (get_entry m k)) \<longrightarrow>
        (\<exists>rel \<in> set (scope_relationships rs). \<exists>pq cq. endpoints rel = Some (pq, cq) \<and>
           k = role_prefix elr @ localName pq \<and> c = localName cq)) \<and>
     (\<forall>(root, tree) \<in> set h. \<exists>t. tree = Some t \<and> name t = root \<and>
        (\<forall>(p, c) \<in> set (tree_edges t).
           \<exists>rel \<in> set (scope_relationships rs). \<exists>pq cq. endpoints rel = Some (pq, cq) \<and>
             p = role_prefix elr @ localName pq \<and> c = localName cq))"
proof -
  let ?rels = "scope_relationships rs"
  from process_relationships_collected[OF assms(1)] assms(2)
  have h: "h = build_roots ord m" by simp
  have ch: "set (children (get_entry m k)) = {c. (k, c) \<in> scope_edges elr ?rels}" for k
    using collected_children[OF assms(2)] by simp
  have a: "\<forall>rel \<in> set ?rels. \<forall>pq cq. endpoints rel = Some (pq, cq) \<longrightarrow>
        localName cq \<in> set (children (get_entry m (role_prefix elr @ localName pq)))"
    unfolding ch by (auto simp: scope_edges_def role_prefix_def)
  have b: "\<forall>k c. c \<in> set (children (get_entry m k)) \<longrightarrow>
        (\<exists>rel \<in> set ?rels. \<exists>pq cq. endpoints rel = Some (pq, cq) \<and>
           k = role_prefix elr @ localName pq \<and> c = localName cq)"
    unfolding ch by (auto simp: scope_edges_def role_prefix_def)
  have c: "\<forall>(root, tree) \<in> set h. \<exists>t. tree = Some t \<and> name t = root \<and>
        (\<forall>(p, c) \<in> set (tree_edges t).
           \<exists>rel \<in> set ?rels. \<exists>pq cq. endpoints rel = Some (pq, cq) \<and>
             p = role_prefix elr @ localName pq \<and> c = localName cq)"
  proof (clarify)
    fix root tree assume "(root, tree) \<in> set h"
    with h build_roots_trees[of root tree ord m] obtain t where
      t: "tree = Some t" "name t = root"
         "\<forall>(p, c) \<in> set (tree_edges t). c \<in> set (children (get_entry m p))"
      by blast
    from t(3) b have "\<forall>(p, c) \<in> set (tree_edges t).
           \<exists>rel \<in> set ?rels. \<exists>pq cq. endpoints rel = Some (pq, cq) \<and>
             p = role_prefix elr @ localName pq \<and> c = localName cq"
      by blast
    with t(1,2) show "\<exists>t. tree = Some t \<and> name t = root \<and>
        (\<forall>(p, c) \<in> set (tree_edges t).
           \<exists>rel \<in> set ?rels. \<exists>pq cq. endpoints rel = Some (pq, cq) \<and>
             p = role_prefix elr @ localName pq \<and> c = localName cq)" by blast
  qed
  from h role_prefix_shape[of elr] collected_keys[OF assms(2)] a b c show ?thesis by blast
qed

theorem link_role_names_witness:
  "process_relationships insertion_order ''arcrole''
       (scope [arc ''Revenue'' ''Cash'', arc ''Assets'' ''Revenue'']) balance_role =
     Inr [(''[Balance] Revenue'', Some (Node ''[Balance] Revenue'' False [Node ''Cash'' False []])),
          (''[Balance] Assets'', Some (Node ''[Balance] Assets'' False [Node ''Revenue'' False []]))]
   \<and> process_relationships reversed_order ''arcrole''
       (scope [arc ''Revenue'' ''Cash'', arc ''Assets'' ''Revenue'']) balance_role =
     Inr [(''[Balance] Assets'', Some (Node ''[Balance] Assets'' False [Node ''Revenue'' False []])),
          (''[Balance] Revenue'', Some (Node ''[Balance] Revenue'' False [Node ''Cash'' False []]))]
   \<and> collect_edges balance_role [arc ''Revenue'' ''Cash'', arc ''Assets'' ''Revenue''] [] =
       Inr revenue_map
   \<and> role_prefix balance_role @ ''Revenue'' = ''[Balance] Revenue''
   \<and> ''Cash'' \<in> set (children (get_entry revenue_map ''[Balance] Revenue''))
   \<and> ''Revenue'' \<in> set (children (get_entry revenue_map ''[Balance] Assets''))"
proof -
  have e: "process_relationships insertion_order ''arcrole''
       (scope [arc ''Revenue'' ''Cash'', arc ''Assets'' ''Revenue'']) balance_role =
     Inr [(''[Balance] Revenue'', Some (Node ''[Balance] Revenue'' False [Node ''Cash'' False []])),
          (''[Balance] Assets'', Some (Node ''[Balance] Assets'' False [Node ''Revenue'' False []]))]"
    by (simp add: dim_eval balance_role_def)
  have r: "process_relationships reversed_order ''arcrole''
       (scope [arc ''Revenue'' ''Cash'', arc ''Assets'' ''Revenue'']) balance_role =
     Inr [(''[Balance] Assets'', Some (Node ''[Balance] Assets'' False [Node ''Revenue'' False []])),
          (''[Balance] Revenue'', Some (Node ''[Balance] Revenue'' False [Node ''Cash'' False []]))]"
    by (simp add: dim_eval balance_role_def)
  have c: "collect_edges balance_role
             (scope_relationships (scope [arc ''Revenue'' ''Cash'', arc ''Assets'' ''Revenue''])) [] =
       Inr revenue_map"
    by code_simp
  have p: "role_prefix balance_role = ''[Balance] ''"
    by code_simp
  from link_role_names[OF e c]
  have "\<forall>rel \<in> set [arc ''Revenue'' ''Cash'', arc ''Assets'' ''Revenue''].
          \<forall>pq cq. endpoints rel = Some (pq, cq) \<longrightarrow>
            localName cq \<in> set (children (get_entry revenue_map (''[Balance] '' @ localName pq)))"
    by (simp only: p scope_relationships_scope) blast
  then have "''Cash'' \<in> set (children (get_entry revenue_map ''[Balance] Revenue''))"
    and "''Revenue'' \<in> set (children (get_entry revenue_map ''[Balance] Assets''))"
    by simp_all
  with e r c p show ?thesis by simp
qed

section \<open>Root resolution\<close>

text \<open>
  Claim C5. For every parent-child map, the root resolver returns the keys that occur in
  no entry's children; when there is no such key it returns every key. The root set is
  therefore a subset of the keys, it is non-empty for a non-empty map, and it is the set
  of roots of the hierarchy that is built.
\<close>

theorem root_nodes_resolved:
  "root_nodes m =
     (if {k \<in> fst ` set m. \<forall>e \<in> snd ` set m. k \<notin> set (children e)} = {}
      then fst ` set m
      else {k \<in> fst ` set m. \<forall>e \<in> snd ` set m. k \<notin> set (children e)})
   \<and> root_nodes m \<subseteq> fst ` set m
   \<and> (m \<noteq> [] \<longrightarrow> root_nodes m \<noteq> {})
   \<and> fst ` set (build_roots ord m) = root_nodes m"
proof -
  have d: "all_parents m - all_children m =
      {k \<in> fst ` set m. \<forall>e \<in> snd ` set m. k \<notin> set (children e)}"
    by (auto simp: all_parents_def all_children_def)
  have r: "root_nodes m =
     (if {k \<in> fst ` set m. \<forall>e \<in> snd ` set m. k \<notin> set (children e)} = {}
      then fst ` set m
      else {k \<in> fst ` set m. \<forall>e \<in> snd ` set m. k \<notin> set (children e)})"
    by (simp only: root_nodes_def d) (simp only: all_parents_def)
  have s: "root_nodes m \<subseteq> fst ` set m"
    unfolding r by auto
  have n: "m \<noteq> [] \<longrightarrow> root_nodes m \<noteq> {}"
    unfolding r by (cases m) auto
  have b: "fst ` set (build_roots ord m) = root_nodes m"
    by (simp add: set_build_roots image_image)
  from r s n b show ?thesis by blast
qed

theorem root_nodes_resolved_witness:
  "collect_edges balance_role [arc ''A'' ''[Balance] B'', arc ''B'' ''[Balance] A''] [] =
     Inr ring_map
   \<and> ring_map \<noteq> [] \<and> root_nodes ring_map = {''[Balance] A'', ''[Balance] B''}
   \<and> fst ` set (build_roots reversed_order ring_map) = {''[Balance] A'', ''[Balance] B''}"
proof -
  have c: "collect_edges balance_role [arc ''A'' ''[Balance] B'', arc ''B'' ''[Balance] A''] [] =
     Inr ring_map"
    by code_simp
  have e: "{k \<in> fst ` set ring_map. \<forall>e \<in> snd ` set ring_map. k \<notin> set (children e)} = {}"
    by (auto simp: ring_map_def)
  have k: "fst ` set ring_map = {''[Balance] A'', ''[Balance] B''}"
    by (simp add: ring_map_def)
  have n: "ring_map \<noteq> []"
    by (simp add: ring_map_def)
  from root_nodes_resolved [of ring_map reversed_order] n c show ?thesis
    by (simp only: e if_True) (simp add: k)
qed

section \<open>A ring of relationships\<close>

text \<open>
  Claim C6. For the ring \<open>A \<rightarrow> B\<close>, \<open>B \<rightarrow> C\<close>, \<open>C \<rightarrow> A\<close> the claim expects that no node is
  a root by itself, so that the fallback of line 89 makes every node a root. The function
  never gets there: for every link role the map has six keys, the three prefixed parent
  names and the three bare child names; line 85 subtracts the bare names from them and is
  left with the three prefixed names, so the test of line 87 fails, the fallback is not
  taken, and the roots are not all the keys. Each root carries one leaf; the ring is never
  followed. \<open>fallback_unreachable\<close> above shows the same for every scope whose child
  names hold no \<open>[\<close>.
\<close>

theorem ring_fallback_not_taken:
  "collect_edges elr [arc ''A'' ''B'', arc ''B'' ''C'', arc ''C'' ''A''] [] =
     Inr (ring_scope_map elr)
   \<and> process_relationships ord arcrole
       (scope [arc ''A'' ''B'', arc ''B'' ''C'', arc ''C'' ''A'']) elr =
     Inr (build_roots ord (ring_scope_map elr))
   \<and> all_parents (ring_scope_map elr) =
       {role_prefix elr @ ''A'', ''B'', role_prefix elr @ ''B'', ''C'',
        role_prefix elr @ ''C'', ''A''}
   \<and> all_children (ring_scope_map elr) = {''A'', ''B'', ''C''}
   \<and> all_parents (ring_scope_map elr) - all_children (ring_scope_map elr) =
       {role_prefix elr @ ''A'', role_prefix elr @ ''B'', role_prefix elr @ ''C''}
   \<and> all_parents (ring_scope_map elr) - all_children (ring_scope_map elr) \<noteq> {}
   \<and> root_nodes (ring_scope_map elr) \<noteq> all_parents (ring_scope_map elr)
   \<and> set (build_roots ord (ring_scope_map elr)) =
       {(role_prefix elr @ ''A'', Some (Node (role_prefix elr @ ''A'') False [Node ''B'' False []])),
        (role_prefix elr @ ''B'', Some (Node (role_prefix elr @ ''B'') False [Node ''C'' False []])),
        (role_prefix elr @ ''C'', Some (Node (role_prefix elr @ ''C'') False [Node ''A'' False []]))}"
proof -
  have c: "collect_edges elr [arc ''A'' ''B'', arc ''B'' ''C'', arc ''C'' ''A''] [] =
     Inr (ring_scope_map elr)"
    by (simp add: ring_scope_map_def arc_def concept_def add_relationship_def record_edge_def
          default_entry_def role_prefix_def)
  then have p: "process_relationships ord arcrole
       (scope [arc ''A'' ''B'', arc ''B'' ''C'', arc ''C'' ''A'']) elr =
     Inr (build_roots ord (ring_scope_map elr))"
    by (simp add: process_relationships_def scope_def)
  have k: "all_parents (ring_scope_map elr) =
       {role_prefix elr @ ''A'', ''B'', role_prefix elr @ ''B'', ''C'',
        role_prefix elr @ ''C'', ''A''}"
    by (simp add: all_parents_def ring_scope_map_def)
  have ch: "all_children (ring_scope_map elr) = {''A'', ''B'', ''C''}"
    by (auto simp: all_children_def ring_scope_map_def)
  have d: "all_parents (ring_scope_map elr) - all_children (ring_scope_map elr) =
       {role_prefix elr @ ''A'', role_prefix elr @ ''B'', role_prefix elr @ ''C''}"
    unfolding k ch by (auto simp: role_prefix_def)
  then have ne: "all_parents (ring_scope_map elr) - all_children (ring_scope_map elr) \<noteq> {}"
    by simp
  have r: "root_nodes (ring_scope_map elr) =
       {role_prefix elr @ ''A'', role_prefix elr @ ''B'', role_prefix elr @ ''C''}"
    using d by (simp add: root_nodes_def)
  have "''A'' \<in> all_parents (ring_scope_map elr)"
    unfolding k by simp
  moreover have "''A'' \<notin> root_nodes (ring_scope_map elr)"
    unfolding r by (simp add: role_prefix_def)
  ultimately have nf: "root_nodes (ring_scope_map elr) \<noteq> all_parents (ring_scope_map elr)"
    by metis
  have tA: "fst (build_hierarchy (ring_scope_map elr) (role_prefix elr @ ''A'') {} 0) =
      Some (Node (role_prefix elr @ ''A'') False [Node ''B'' False []])"
    by (simp add: ring_scope_map_def get_entry_def build_hierarchy_eq build_children_Cons
          build_children_Nil role_prefix_def)
  have tB: "fst (build_hierarchy (ring_scope_map elr) (role_prefix elr @ ''B'') {} 0) =
      Some (Node (role_prefix elr @ ''B'') False [Node ''C'' False []])"
    by (simp add: ring_scope_map_def get_entry_def build_hierarchy_eq build_children_Cons
          build_children_Nil role_prefix_def)
  have tC: "fst (build_hierarchy (ring_scope_map elr) (role_prefix elr @ ''C'') {} 0) =
      Some (Node (role_prefix elr @ ''C'') False [Node ''A'' False []])"
    by (simp add: ring_scope_map_def get_entry_def build_hierarchy_eq build_children_Cons
          build_children_Nil role_prefix_def)
  have t: "set (build_roots ord (ring_scope_map elr)) =
       {(role_prefix elr @ ''A'', Some (Node (role_prefix elr @ ''A'') False [Node ''B'' False []])),
        (role_prefix elr @ ''B'', Some (Node (role_prefix elr @ ''B'') False [Node ''C'' False []])),
        (role_prefix elr @ ''C'', Some (Node (role_prefix elr @ ''C'') False [Node ''A'' False []]))}"
    unfolding set_build_roots r image_insert image_empty tA tB tC ..
  from c p k ch d ne nf t show ?thesis by blast
qed

section \<open>Fan-in\<close>


section \<open>The depth bound of the formula walker\<close>

text \<open>
  Claim C8. \<open>process_formula_object\<close> is total (its termination proof is above: the
  distance of \<open>depth\<close> to \<open>max_depth + 1\<close> decreases with every descent). With the
  default \<open>max_depth\<close> of 100, a call at a depth above 100 returns at once and leaves the
  output and the \<open>visited\<close> set as they were; every call hands \<open>visited\<close> back
  unchanged; the output built into an empty dictionary at depth \<open>d\<close> has at most
  \<open>101 - d\<close> nested levels; and a chain of 150 objects gives the nest of the objects
  at depths 0 to 100, 101 levels, the last of them holding one empty dictionary for the
  object at depth 101.
\<close>

theorem formula_walk_bounded:
  "(depth > 100 \<longrightarrow> process_formula_object obj rs h visited depth 100 = (h, visited))
   \<and> snd (process_formula_object obj rs h visited depth 100) = visited
   \<and> hierarchy_levels (fst (process_formula_object obj rs [] visited depth 100)) \<le> 101 - depth
   \<and> process_formula_object (chain_obj 0) (Some (chain_rels 150)) [] {} 0 100
       = (truncated_chain 150 101 0, {})
   \<and> hierarchy_levels (truncated_chain 150 101 0) = 101"
proof -
  have a: "depth > 100 \<longrightarrow> process_formula_object obj rs h visited depth 100 = (h, visited)"
    by (simp add: process_formula_object_eq)
  have b: "hierarchy_levels (fst (process_formula_object obj rs [] visited depth 100)) \<le> 101 - depth"
    using formula_levels_bound(1)[of obj rs "[]" visited depth 100] by simp
  have c: "process_formula_object (chain_obj 0) (Some (chain_rels 150)) [] {} 0 100
       = (truncated_chain 150 101 0, {})"
    by (rule chain_walk) simp_all
  have d: "hierarchy_levels (truncated_chain 150 101 0) = 101"
    by (rule truncated_chain_levels) simp
  from a formula_visited_restored(1)[of obj rs h visited depth 100] b c d show ?thesis by blast
qed

theorem formula_walk_bounded_witness:
  "(101::nat) > 100
   \<and> process_formula_object (chain_obj 0) (Some (chain_rels 150)) [] {} 101 100 = ([], {})"
  using formula_walk_bounded[of 101 "chain_obj 0" "Some (chain_rels 150)" "[]" "{}"]
  by simp

section \<open>Records without an end or without a name\<close>

text \<open>
  Claim C9. The taxonomy parser leaves out every record with a missing end or a missing
  qualified name, notes it in \<open>skipped_relationships\<close> and goes on
  (\<open>flat_loop_skip_and_continue\<close>). The dimension parser passes over a record with a
  missing end or an end without the \<open>qname\<close> attribute
  (\<open>collect_edges_skip_and_continue\<close>), but an end whose \<open>qname\<close> is \<open>None\<close> passes
  the \<open>hasattr\<close> guard and \<open>parent.qname.localName\<close> raises: the whole call fails and
  the records after it are not processed.
\<close>

theorem missing_qname_raises:
  "process_relationships ord arcrole (scope [unnamed_parent, arc ''A'' ''B'']) elr =
     Inl AttributeError
   \<and> flat_loop (scope [unnamed_parent, arc ''A'' ''B'']) =
     ([(''t:A'', \<lparr>flat_abstract = False, flat_children =
          [\<lparr>child_name = ''t:B'', child_abstract = False\<rparr>]\<rparr>)],
      [(Some nameless, Some (concept ''B''), ''Missing QName'')])"
  by (simp add: dim_eval flat_eval unnamed_parent_def nameless_def)

section \<open>Depth of the trees of a link-role scope\<close>

text \<open>
  Claim C10, as stated, fails: nothing keeps a bare child name from being equal to a
  prefixed parent name. Under the link role ending in \<open>Balance\<close>, a child whose local name
  is \<open>[Balance] B\<close> and a parent whose local name is \<open>B\<close> share the key \<open>[Balance] B\<close>; the
  tree of \<open>A\<close> then has a child that is not a leaf, and depth 3.
\<close>

theorem children_are_leaves_counterexample:
  "(\<forall>ord. process_relationships ord ''arcrole''
      (scope [arc ''A'' ''[Balance] B'', arc ''B'' ''C'']) balance_role =
     Inr [(''[Balance] A'',
           Some (Node ''[Balance] A'' False
                   [Node ''[Balance] B'' False [Node ''C'' False []]]))])
   \<and> node_children (Node ''[Balance] B'' False [Node ''C'' False []]) \<noteq> []
   \<and> node_depth (Node ''[Balance] A'' False
                    [Node ''[Balance] B'' False [Node ''C'' False []]]) = 3"
proof -
  have e: "\<forall>ord. process_relationships ord ''arcrole''
      (scope [arc ''A'' ''[Balance] B'', arc ''B'' ''C'']) balance_role =
     Inr [(''[Balance] A'',
           Some (Node ''[Balance] A'' False
                   [Node ''[Balance] B'' False [Node ''C'' False []]]))]"
    by (simp add: dim_eval balance_role_def)
  show ?thesis using e by simp
qed

text \<open>
  Claim C10, amended. When no bare child name of the scope equals a prefixed parent name of
  the scope (so whenever the local names of the children hold no \<open>[\<close>, see
  \<open>bracket_free_children\<close>), every child node of every returned tree is a leaf, and every
  returned tree has depth at most 2.
\<close>

theorem children_are_leaves:
  assumes "process_relationships ord arcrole rs elr = Inr h"
    and "\<forall>rel \<in> set (scope_relationships rs). \<forall>rel' \<in> set (scope_relationships rs).
           \<forall>pq cq pq' cq'. endpoints rel = Some (pq, cq) \<longrightarrow> endpoints rel' = Some (pq', cq') \<longrightarrow>
             localName cq \<noteq> role_prefix elr @ localName pq'"
  shows "\<forall>(root, tree) \<in> set h. \<exists>t. tree = Some t \<and>
           (\<forall>c \<in> set (node_children t). node_children c = []) \<and> node_depth t \<le> 2"
proof (clarify)
  fix root tree assume rt: "(root, tree) \<in> set h"
  let ?rels = "scope_relationships rs"
  from process_relationships_collected[OF assms(1)] obtain m where
    m: "collect_edges elr ?rels [] = Inr m" and h: "h = build_roots ord m" by blast
  from rt h build_roots_trees[of root tree ord m] obtain t where
    t: "tree = Some t" "\<forall>(p, c) \<in> set (tree_edges t). c \<in> set (children (get_entry m p))"
    by blast
  have e: "set (tree_edges t) \<subseteq> scope_edges elr ?rels"
    using t(2) collected_children[OF m] by auto
  have leaf: "\<forall>c \<in> set (node_children t). node_children c = []"
  proof (rule ballI, rule ccontr)
    fix c assume c: "c \<in> set (node_children t)" and ne: "node_children c \<noteq> []"
    then obtain g where g: "g \<in> set (node_children c)" by (cases "node_children c") auto
    from child_tree_edges[OF c] e have 1: "(name t, name c) \<in> scope_edges elr ?rels" by blast
    from grandchild_tree_edges[OF c g] e have 2: "(name c, name g) \<in> scope_edges elr ?rels"
      by blast
    from 1 obtain rel pq cq where r1: "rel \<in> set ?rels" "endpoints rel = Some (pq, cq)"
      "name c = localName cq" by (auto simp: scope_edges_def)
    from 2 obtain rel' pq' cq' where r2: "rel' \<in> set ?rels" "endpoints rel' = Some (pq', cq')"
      "name c = role_prefix elr @ localName pq'" by (auto simp: scope_edges_def role_prefix_def)
    from assms(2) r1 r2 show False by metis
  qed
  with leaves_depth[OF leaf] t(1)
  show "\<exists>t. tree = Some t \<and>
           (\<forall>c \<in> set (node_children t). node_children c = []) \<and> node_depth t \<le> 2" by blast
qed

theorem children_are_leaves_witness:
  "process_relationships insertion_order ''arcrole'' (scope [arc ''A'' ''B'', arc ''B'' ''C'']) balance_role =
     Inr [(''[Balance] A'', Some (Node ''[Balance] A'' False [Node ''B'' False []])),
          (''[Balance] B'', Some (Node ''[Balance] B'' False [Node ''C'' False []]))]
   \<and> process_relationships reversed_order ''arcrole'' (scope [arc ''A'' ''B'', arc ''B'' ''C'']) balance_role =
     Inr [(''[Balance] B'', Some (Node ''[Balance] B'' False [Node ''C'' False []])),
          (''[Balance] A'', Some (Node ''[Balance] A'' False [Node ''B'' False []]))]
   \<and> node_depth (Node ''[Balance] A'' False [Node ''B'' False []]) \<le> 2
   \<and> node_depth (Node ''[Balance] B'' False [Node ''C'' False []]) \<le> 2"
proof -
  have r: "process_relationships reversed_order ''arcrole'' (scope [arc ''A'' ''B'', arc ''B'' ''C'']) balance_role =
     Inr [(''[Balance] B'', Some (Node ''[Balance] B'' False [Node ''C'' False []])),
          (''[Balance] A'', Some (Node ''[Balance] A'' False [Node ''B'' False []]))]"
    by (simp add: dim_eval balance_role_def)
  have e: "process_relationships insertion_order ''arcrole'' (scope [arc ''A'' ''B'', arc ''B'' ''C'']) balance_role =
     Inr [(''[Balance] A'', Some (Node ''[Balance] A'' False [Node ''B'' False []])),
          (''[Balance] B'', Some (Node ''[Balance] B'' False [Node ''C'' False []]))]"
    by (simp add: dim_eval balance_role_def)
  have "\<forall>rel \<in> set [arc ''A'' ''B'', arc ''B'' ''C''].
          \<forall>pq cq. endpoints rel = Some (pq, cq) \<longrightarrow> CHR ''['' \<notin> set (localName cq)"
    by auto
  from bracket_free_children[OF this, of balance_role]
  have h: "\<forall>rel \<in> set (scope_relationships (scope [arc ''A'' ''B'', arc ''B'' ''C''])).
           \<forall>rel' \<in> set (scope_relationships (scope [arc ''A'' ''B'', arc ''B'' ''C''])).
           \<forall>pq cq pq' cq'. endpoints rel = Some (pq, cq) \<longrightarrow> endpoints rel' = Some (pq', cq') \<longrightarrow>
             localName cq \<noteq> role_prefix balance_role @ localName pq'"
    by simp
  from children_are_leaves[OF e h]
  have "node_depth (Node ''[Balance] A'' False [Node ''B'' False []]) \<le> 2"
    and "node_depth (Node ''[Balance] B'' False [Node ''C'' False []]) \<le> 2"
    by auto
  with e r show ?thesis by blast
qed

end
